theory Spec2Isabelle
  imports Main "HOL-Library.Word" "HOL-Library.Multiset"
begin

text \<open>
  The repository holds the tool twice: \<open>smb_tool.go\<close>, written against the library
  \<open>stacktitan/smb\<close>, and a second program with the same functions, written against
  \<open>hirochachacha/go-smb2\<close> and called the go-smb2 program here. A definition named
  after a function of the source is the go-smb2 program's; the suffix \<open>_smb_tool\<close> marks
  the function of the same name in \<open>smb_tool.go\<close>.

  The packages the programs import (\<open>strings\<close>, \<open>bufio\<close>, \<open>path/filepath\<close>, \<open>io\<close>,
  \<open>os\<close>, \<open>golang.org/x/text\<close> and the two SMB libraries) are not part of the
  repository. What the programs call of them is modelled after the behaviour of the Go
  distribution; the share and the local file system are explicit state.
\<close>

section \<open>Byte strings and the string functions the tool calls\<close>

text \<open>
  A Go string is a sequence of bytes. File contents, lines and the search string are
  byte lists; remote paths and file names are \<open>string\<close>s (one character per byte).
\<close>

type_synonym byte = "8 word"
type_synonym bytes = "byte list"

definition LF :: byte where "LF = 10"
definition CR :: byte where "CR = 13"

definition slash :: char where "slash = CHR ''/''"
definition backslash :: char where "backslash = CHR 0x5C"

text \<open>\<open>strings.HasPrefix\<close> and \<open>strings.Contains\<close>: literal, byte by byte.\<close>

fun HasPrefix :: "'a list \<Rightarrow> 'a list \<Rightarrow> bool" where
  "HasPrefix s [] = True"
| "HasPrefix [] (p # ps) = False"
| "HasPrefix (x # xs) (p # ps) = (x = p \<and> HasPrefix xs ps)"

fun Contains :: "'a list \<Rightarrow> 'a list \<Rightarrow> bool" where
  "Contains [] substr = (substr = [])"
| "Contains (x # xs) substr = (HasPrefix (x # xs) substr \<or> Contains xs substr)"

text \<open>\<open>strings.HasSuffix\<close>.\<close>

definition HasSuffix :: "'a list \<Rightarrow> 'a list \<Rightarrow> bool" where
  "HasSuffix s suffix =
     (length suffix \<le> length s \<and> drop (length s - length suffix) s = suffix)"

text \<open>
  \<open>strings.ReplaceAll(s, old, new)\<close> where \<open>old\<close> and \<open>new\<close> are one byte each, which is
  the only way the tool calls it (\<open>"/"\<close> and \<open>"\\"\<close>).
\<close>

definition ReplaceAll :: "string \<Rightarrow> char \<Rightarrow> char \<Rightarrow> string" where
  "ReplaceAll s old new = map (\<lambda>c. if c = old then new else c) s"

text \<open>
  \<open>strings.ToLower\<close> on the ASCII letters; every other byte is left as it is. (Go also
  lowers non-ASCII letters; none of them lowers to a byte of \<open>".log"\<close>.)
\<close>

definition lower_char :: "char \<Rightarrow> char" where
  "lower_char c =
     (let n = (of_char c :: nat) in if 65 \<le> n \<and> n \<le> 90 then char_of (n + 32) else c)"

definition ToLower :: "string \<Rightarrow> string" where
  "ToLower s = map lower_char s"

section \<open>The buffered reader (\<open>bufio.Reader\<close>) over a remote file\<close>

text \<open>
  A remote file, as a reader sees it: the bytes it delivers, how the stream ends (end of
  file, or a read error after the delivered bytes), and whether the store's \<open>Read\<close>
  reports that end together with the last bytes (\<open>n > 0, err\<close>) or by a later call
  that returns no data (\<open>0, err\<close>). Once reported, the end is reported by every later
  \<open>Read\<close>.
\<close>

datatype stream_end = AtEOF | Broken

record remote_file =
  content :: bytes
  ending :: stream_end
  end_with_data :: bool

datatype go_error = EOF | ErrBufferFull | ErrRead

definition end_error :: "stream_end \<Rightarrow> go_error" where
  "end_error e = (case e of AtEOF \<Rightarrow> EOF | Broken \<Rightarrow> ErrRead)"

text \<open>
  The reader: the bytes not yet handed to the caller (buffered or still in the file), the
  end of the stream, and the length of the buffer. \<open>bufio.NewReaderSize\<close> never builds
  a buffer of fewer than 16 bytes; \<open>bufio.NewReader\<close> asks for 4096.
\<close>

record reader =
  rd_rest :: bytes
  rd_end :: stream_end
  rd_end_with_data :: bool
  rd_size :: nat

definition minReadBufferSize :: nat where "minReadBufferSize = 16"
definition defaultBufSize :: nat where "defaultBufSize = 4096"

definition buflen :: "reader \<Rightarrow> nat" where
  "buflen b = max minReadBufferSize (rd_size b)"

definition NewReaderSize :: "remote_file \<Rightarrow> nat \<Rightarrow> reader" where
  "NewReaderSize f sz =
     \<lparr>rd_rest = content f, rd_end = ending f, rd_end_with_data = end_with_data f,
      rd_size = max minReadBufferSize sz\<rparr>"

definition NewReader :: "remote_file \<Rightarrow> reader" where
  "NewReader f = NewReaderSize f defaultBufSize"

text \<open>
  \<open>ReadSlice('\n')\<close>: the bytes up to and with the first line feed when it lies within
  one buffer length; otherwise the whole rest with the stream's end error when the
  stream ends before the buffer is full (or exactly when it is full and the end came
  with the data); otherwise one buffer of bytes with \<open>ErrBufferFull\<close>.
\<close>

definition ReadSlice :: "reader \<Rightarrow> (bytes \<times> go_error option) \<times> reader" where
  "ReadSlice b =
     (let n = buflen b; avail = take n (rd_rest b) in
      if LF \<in> set avail then
        (let i = length (takeWhile (\<lambda>c. c \<noteq> LF) avail) in
         ((take (i + 1) (rd_rest b), None), b\<lparr>rd_rest := drop (i + 1) (rd_rest b)\<rparr>))
      else if length (rd_rest b) < n \<or> (length (rd_rest b) = n \<and> rd_end_with_data b) then
        ((rd_rest b, Some (end_error (rd_end b))), b\<lparr>rd_rest := []\<rparr>)
      else ((avail, Some ErrBufferFull), b\<lparr>rd_rest := drop n (rd_rest b)\<rparr>))"

text \<open>The end of line \<open>ReadLine\<close> cuts off: \<open>"\n"\<close>, or \<open>"\r\n"\<close>.\<close>

definition drop_eol :: "bytes \<Rightarrow> bytes" where
  "drop_eol line =
     (if last line = LF then
        (if length line > 1 \<and> line ! (length line - 2) = CR
         then take (length line - 2) line else take (length line - 1) line)
      else line)"

text \<open>
  \<open>ReadLine\<close>: on \<open>ErrBufferFull\<close> the bytes are a prefix of the line (\<open>isPrefix\<close>), and a
  carriage return at their end is put back for the next call; with no bytes the error
  is returned; otherwise the error is dropped and the line is returned without its end
  of line.
\<close>

definition ReadLine :: "reader \<Rightarrow> (bytes \<times> bool \<times> go_error option) \<times> reader" where
  "ReadLine b =
     (case ReadSlice b of
        ((line, err), b') \<Rightarrow>
          if err = Some ErrBufferFull then
            (if line \<noteq> [] \<and> last line = CR
             then ((butlast line, True, None), b'\<lparr>rd_rest := CR # rd_rest b'\<rparr>)
             else ((line, True, None), b'))
          else if line = [] then (([], False, err), b')
          else ((drop_eol line, False, None), b'))"

lemma ReadSlice_fields:
  "ReadSlice b = (res, b') \<Longrightarrow>
     rd_end b' = rd_end b \<and> rd_end_with_data b' = rd_end_with_data b \<and> rd_size b' = rd_size b"
  by (auto simp: ReadSlice_def Let_def split: if_splits)

lemma ReadLine_fields:
  "ReadLine b = (res, b') \<Longrightarrow>
     rd_end b' = rd_end b \<and> rd_end_with_data b' = rd_end_with_data b \<and> rd_size b' = rd_size b"
  by (auto simp: ReadLine_def split: prod.splits if_splits dest: ReadSlice_fields)

lemma end_error_not_full [simp]: "end_error e \<noteq> ErrBufferFull"
  by (cases e) (simp_all add: end_error_def)

lemma buflen_ge: "16 \<le> buflen b"
  by (simp add: buflen_def minReadBufferSize_def)

lemma ReadLine_progress:
  assumes "ReadLine b = ((line, isPrefix, None), b')"
  shows "length (rd_rest b') < length (rd_rest b)"
proof -
  have n: "16 \<le> buflen b" by (rule buflen_ge)
  show ?thesis
  proof (cases "LF \<in> set (take (buflen b) (rd_rest b))")
    case True
    then have "rd_rest b \<noteq> []" by auto
    with True assms show ?thesis
      by (auto simp: ReadLine_def ReadSlice_def Let_def split: if_splits)
  next
    case False
    with assms n show ?thesis
      by (auto simp: ReadLine_def ReadSlice_def Let_def split: if_splits)
  qed
qed

lemma ReadLine_progress':
  "((line, isPrefix, None), b') = ReadLine b \<Longrightarrow> length (rd_rest b') < length (rd_rest b)"
  by (rule ReadLine_progress) (rule sym)

section \<open>The content scanner\<close>

text \<open>
  The UTF-16 decoder of \<open>golang.org/x/text\<close> is a parameter of the scanner: given the
  default byte order it returns the decoded bytes, or \<open>None\<close> when
  \<open>transform.Bytes\<close> returns an error.
\<close>

datatype endianness = BigEndian | LittleEndian

type_synonym decoder = "endianness \<Rightarrow> bytes \<Rightarrow> bytes option"

datatype smb_error =
  OpenError | ReadError | ReadContinuationError | WalkError | CreateError | CopyError

subsection \<open>\<open>searchStringInFileSMB\<close> of the go-smb2 program\<close>

text \<open>The inner loop \<open>for isPrefix { ... }\<close>: the rest of a line longer than the buffer.\<close>

function read_continuation :: "bytes \<Rightarrow> bool \<Rightarrow> reader \<Rightarrow> (smb_error + bytes) \<times> reader" where
  "read_continuation line isPrefix rd =
     (if isPrefix then
        (case ReadLine rd of
           ((moreBytes, moreIsPrefix, Some e), rd') \<Rightarrow>
             if e = EOF then (Inr line, rd') else (Inl ReadContinuationError, rd')
         | ((moreBytes, moreIsPrefix, None), rd') \<Rightarrow>
             read_continuation (line @ moreBytes) moreIsPrefix rd')
      else (Inr line, rd))"
  by pat_completeness auto
termination
  by (relation "measure (\<lambda>(line, isPrefix, rd). length (rd_rest rd))")
     (auto dest: ReadLine_progress')

declare read_continuation.simps [simp del]

text \<open>The byte-order-mark test and the decoding of one reassembled line.\<close>

definition decode_line :: "decoder \<Rightarrow> bytes \<Rightarrow> bytes" where
  "decode_line dec line =
     (if length line > 1 \<and> line ! 0 = 0xFF \<and> line ! 1 = 0xFE then
        (case dec LittleEndian line of Some decodedBytes \<Rightarrow> decodedBytes | None \<Rightarrow> line)
      else if length line > 1 \<and> line ! 0 = 0xFE \<and> line ! 1 = 0xFF then
        (case dec BigEndian line of Some decodedBytes \<Rightarrow> decodedBytes | None \<Rightarrow> line)
      else line)"

lemma ReadLine_error_rest:
  "ReadLine b = ((line, isPrefix, Some e), b') \<Longrightarrow> rd_rest b' = [] \<and> rd_rest b = []"
  by (auto simp: ReadLine_def ReadSlice_def Let_def split: if_splits)

lemma read_continuation_rest:
  "read_continuation line isPrefix rd = (res, rd') \<Longrightarrow>
     length (rd_rest rd') \<le> length (rd_rest rd)"
proof (induction line isPrefix rd rule: read_continuation.induct)
  case (1 line isPrefix rd)
  show ?case
  proof (cases isPrefix)
    case False
    with "1.prems" show ?thesis by (simp add: read_continuation.simps [of line])
  next
    case True
    obtain mb mp e r1 where rl: "ReadLine rd = ((mb, mp, e), r1)"
      by (metis prod.exhaust)
    show ?thesis
    proof (cases e)
      case None
      with True rl "1.prems" have "read_continuation (line @ mb) mp r1 = (res, rd')"
        by (simp add: read_continuation.simps [of line])
      with "1.IH" True rl None have "length (rd_rest rd') \<le> length (rd_rest r1)"
        by simp
      moreover from rl None have "length (rd_rest r1) < length (rd_rest rd)"
        by (auto dest: ReadLine_progress)
      ultimately show ?thesis by simp
    next
      case (Some err)
      with True rl "1.prems" have "rd' = r1"
        by (auto simp: read_continuation.simps [of line] split: if_splits)
      with rl Some show ?thesis by (auto dest: ReadLine_error_rest)
    qed
  qed
qed

text \<open>The outer loop: one line per round, until a match, the end of the file or an error.\<close>

function scan_lines :: "decoder \<Rightarrow> bytes \<Rightarrow> reader \<Rightarrow> (smb_error + bool) \<times> reader" where
  "scan_lines dec searchString rd =
     (case ReadLine rd of
        ((lineBytes, isPrefix, Some e), rd1) \<Rightarrow>
          if e = EOF then (Inr False, rd1) else (Inl ReadError, rd1)
      | ((lineBytes, isPrefix, None), rd1) \<Rightarrow>
          (case read_continuation lineBytes isPrefix rd1 of
             (Inl err, rd2) \<Rightarrow> (Inl err, rd2)
           | (Inr line, rd2) \<Rightarrow>
               if Contains (decode_line dec line) searchString then (Inr True, rd2)
               else scan_lines dec searchString rd2))"
  by pat_completeness auto
termination
proof (relation "measure (\<lambda>(dec, searchString, rd). length (rd_rest rd))", goal_cases)
  case 1
  show ?case by simp
next
  case (2 dec searchString rd x1 rd1 lineBytes x2 isPrefix e x1a rd2 line)
  then have "length (rd_rest rd1) < length (rd_rest rd)"
    by (auto dest: ReadLine_progress')
  moreover from 2 have "length (rd_rest rd2) \<le> length (rd_rest rd1)"
    by (auto dest: read_continuation_rest [OF sym])
  ultimately show ?case by simp
qed

subsection \<open>\<open>searchStringInFileSMB\<close> of \<open>smb_tool.go\<close>\<close>

text \<open>
  One loop: \<open>line\<close> collects the pieces of a long line across the rounds and is reset
  after a line that does not match; \<open>isUTF16\<close> is the flag the function declares
  (and starts as false).
\<close>

function scan_lines_smb_tool ::
  "decoder \<Rightarrow> bytes \<Rightarrow> bool \<Rightarrow> bytes \<Rightarrow> reader \<Rightarrow> (smb_error + bool) \<times> reader" where
  "scan_lines_smb_tool dec searchString isUTF16 line rd =
     (case ReadLine rd of
        ((lineBytes, isPrefix, Some e), rd1) \<Rightarrow>
          if e = EOF then (Inr False, rd1) else (Inl ReadError, rd1)
      | ((lineBytes, isPrefix, None), rd1) \<Rightarrow>
          (let line1 = line @ lineBytes in
           if isPrefix then scan_lines_smb_tool dec searchString isUTF16 line1 rd1
           else
             (let decodedLine =
                (if isUTF16 then
                   (case dec LittleEndian line1 of
                      Some decodedBytes \<Rightarrow> decodedBytes | None \<Rightarrow> line1)
                 else line1) in
              if Contains decodedLine searchString then (Inr True, rd1)
              else scan_lines_smb_tool dec searchString isUTF16 [] rd1)))"
  by pat_completeness auto
termination
  by (relation "measure (\<lambda>(dec, searchString, isUTF16, line, rd). length (rd_rest rd))")
     (auto dest: ReadLine_progress')

declare scan_lines.simps [simp del] scan_lines_smb_tool.simps [simp del]

section \<open>The remote store\<close>

text \<open>
  The mounted share: the files it opens, by the name \<open>Open\<close> is called with; what a
  recursive walk from a path calls its callback with, and whether the walk itself then
  returns an error; and the names \<open>Open\<close> has been called with so far, in call order.

  \<open>Visit path name isDir\<close> is a call of the callback with no error, for the entry at
  \<open>path\<close> whose \<open>Name()\<close> and \<open>IsDir()\<close> are \<open>name\<close> and \<open>isDir\<close>; \<open>VisitError path\<close>
  is a call with an error.
\<close>

datatype visit =
  Visit string string bool
| VisitError string

record share =
  files :: "string \<Rightarrow> remote_file option"
  walk :: "string \<Rightarrow> visit list \<times> bool"
  opened :: "string list"

definition smbOpen :: "share \<Rightarrow> string \<Rightarrow> remote_file option \<times> share" where
  "smbOpen sh name = (files sh name, sh\<lparr>opened := opened sh @ [name]\<rparr>)"

text \<open>\<open>searchStringInFileSMB\<close> of the go-smb2 program: the path is rewritten before \<open>Open\<close>.\<close>

definition searchStringInFileSMB ::
  "decoder \<Rightarrow> share \<Rightarrow> string \<Rightarrow> bytes \<Rightarrow> (smb_error + bool) \<times> share" where
  "searchStringInFileSMB dec sh filePath searchString =
     (let filePath' = ReplaceAll filePath backslash slash in
      case smbOpen sh filePath' of
        (None, sh') \<Rightarrow> (Inl OpenError, sh')
      | (Some file, sh') \<Rightarrow> (fst (scan_lines dec searchString (NewReader file)), sh'))"

text \<open>\<open>searchStringInFileSMB\<close> of \<open>smb_tool.go\<close>: \<open>Open\<close> is called with the path as given.\<close>

definition searchStringInFileSMB_smb_tool ::
  "decoder \<Rightarrow> share \<Rightarrow> string \<Rightarrow> bytes \<Rightarrow> (smb_error + bool) \<times> share" where
  "searchStringInFileSMB_smb_tool dec sh filePath searchString =
     (case smbOpen sh filePath of
        (None, sh') \<Rightarrow> (Inl OpenError, sh')
      | (Some file, sh') \<Rightarrow>
          (fst (scan_lines_smb_tool dec searchString False [] (NewReader file)), sh'))"

section \<open>Discovery\<close>

text \<open>
  The callback of the walk: an entry the walk reports with an error is skipped; a
  non-directory whose lowered name ends in \<open>.log\<close> is appended, its path rewritten
  to backslashes.
\<close>

definition walk_callback :: "string list \<Rightarrow> visit \<Rightarrow> string list" where
  "walk_callback logFiles v =
     (case v of
        VisitError entryPath \<Rightarrow> logFiles
      | Visit entryPath name isDir \<Rightarrow>
          if \<not> isDir \<and> HasSuffix (ToLower name) ''.log''
          then logFiles @ [ReplaceAll entryPath slash backslash]
          else logFiles)"

definition findLogFilesSMB :: "share \<Rightarrow> string \<Rightarrow> smb_error + string list" where
  "findLogFilesSMB sh path =
     (case walk sh path of
        (visits, failed) \<Rightarrow>
          (let logFiles = fold (\<lambda>v acc. walk_callback acc v) visits [] in
           if failed then Inl WalkError else Inr logFiles))"

text \<open>The callback and the function of \<open>smb_tool.go\<close> (\<open>smbSession.Walk\<close>, \<open>os.FileInfo\<close>).\<close>

definition walk_callback_smb_tool :: "string list \<Rightarrow> visit \<Rightarrow> string list" where
  "walk_callback_smb_tool logFiles v =
     (case v of
        VisitError filePath \<Rightarrow> logFiles
      | Visit filePath name isDir \<Rightarrow>
          if \<not> isDir \<and> HasSuffix (ToLower name) ''.log''
          then logFiles @ [ReplaceAll filePath slash backslash]
          else logFiles)"

definition findLogFilesSMB_smb_tool :: "share \<Rightarrow> string \<Rightarrow> smb_error + string list" where
  "findLogFilesSMB_smb_tool sh path =
     (case walk sh path of
        (visits, failed) \<Rightarrow>
          (let logFiles = fold (\<lambda>v acc. walk_callback_smb_tool acc v) visits [] in
           if failed then Inl WalkError else Inr logFiles))"

section \<open>The fetcher\<close>

text \<open>
  The local file system, by path relative to the working directory: the files and
  their bytes, and the names \<open>os.Create\<close> fails on. \<open>os.Create\<close> fails on the names of
  directories that always exist; a created file is empty. \<open>io.Copy\<close> writes every byte
  the remote file delivers and returns the read error of a broken stream.
\<close>

record local_fs =
  lfiles :: "string \<Rightarrow> bytes option"
  create_fails :: "string \<Rightarrow> bool"

definition os_Create :: "local_fs \<Rightarrow> string \<Rightarrow> local_fs option" where
  "os_Create fs name =
     (if name = [] \<or> name = ''.'' \<or> name = ''..'' \<or> name = ''/'' \<or> create_fails fs name
      then None
      else Some (fs\<lparr>lfiles := (lfiles fs)(name \<mapsto> [])\<rparr>))"

definition io_Copy :: "local_fs \<Rightarrow> string \<Rightarrow> remote_file \<Rightarrow> (nat \<times> go_error option) \<times> local_fs" where
  "io_Copy fs name f =
     ((length (content f), (case ending f of AtEOF \<Rightarrow> None | Broken \<Rightarrow> Some ErrRead)),
      fs\<lparr>lfiles := (lfiles fs)(name \<mapsto> content f)\<rparr>)"

definition fetchFileSMB ::
  "share \<Rightarrow> local_fs \<Rightarrow> string \<Rightarrow> string \<Rightarrow> smb_error option \<times> share \<times> local_fs" where
  "fetchFileSMB sh fs remotePath localPath =
     (let remotePath' = ReplaceAll remotePath backslash slash in
      case smbOpen sh remotePath' of
        (None, sh') \<Rightarrow> (Some OpenError, sh', fs)
      | (Some file, sh') \<Rightarrow>
          (case os_Create fs localPath of
             None \<Rightarrow> (Some CreateError, sh', fs)
           | Some fs' \<Rightarrow>
               (case io_Copy fs' localPath file of
                  ((n, Some e), fs'') \<Rightarrow> (Some CopyError, sh', fs'')
                | ((n, None), fs'') \<Rightarrow> (None, sh', fs''))))"

definition fetchFileSMB_smb_tool ::
  "share \<Rightarrow> local_fs \<Rightarrow> string \<Rightarrow> string \<Rightarrow> smb_error option \<times> share \<times> local_fs" where
  "fetchFileSMB_smb_tool sh fs remotePath localPath =
     (case smbOpen sh remotePath of
        (None, sh') \<Rightarrow> (Some OpenError, sh', fs)
      | (Some remoteFile, sh') \<Rightarrow>
          (case os_Create fs localPath of
             None \<Rightarrow> (Some CreateError, sh', fs)
           | Some fs' \<Rightarrow>
               (case io_Copy fs' localPath remoteFile of
                  ((bytesCopied, Some e), fs'') \<Rightarrow> (Some CopyError, sh', fs'')
                | ((bytesCopied, None), fs'') \<Rightarrow> (None, sh', fs''))))"

text \<open>
  \<open>filepath.Base\<close> as Go builds it for a Unix-like system (the \<open>Makefile\<close> of the
  repository is written for one): the only separator is the slash, there is no volume
  name.
\<close>

definition IsPathSeparator :: "char \<Rightarrow> bool" where
  "IsPathSeparator c = (c = slash)"

definition strip_trailing :: "string \<Rightarrow> string" where
  "strip_trailing path = rev (dropWhile IsPathSeparator (rev path))"

definition last_element :: "string \<Rightarrow> string" where
  "last_element path = rev (takeWhile (\<lambda>c. \<not> IsPathSeparator c) (rev path))"

definition filepath_Base :: "string \<Rightarrow> string" where
  "filepath_Base path =
     (if path = [] then ''.''
      else (let path1 = last_element (strip_trailing path) in
            if path1 = [] then [slash] else path1))"

text \<open>
  The last step of \<open>main\<close>, the same in both programs: an empty answer skips the fetch,
  any other is fetched to the file named by its base name.
\<close>

definition fetch_step ::
  "share \<Rightarrow> local_fs \<Rightarrow> string \<Rightarrow> (smb_error option \<times> share \<times> local_fs) option" where
  "fetch_step sh fs fileToFetch =
     (if fileToFetch \<noteq> [] then
        (let localFileName = filepath_Base fileToFetch in
         Some (fetchFileSMB sh fs fileToFetch localFileName))
      else None)"

definition fetch_step_smb_tool ::
  "share \<Rightarrow> local_fs \<Rightarrow> string \<Rightarrow> (smb_error option \<times> share \<times> local_fs) option" where
  "fetch_step_smb_tool sh fs fileToFetch =
     (if fileToFetch \<noteq> [] then
        (let localFileName = filepath_Base fileToFetch in
         Some (fetchFileSMB_smb_tool sh fs fileToFetch localFileName))
      else None)"

section \<open>The two phases of \<open>main\<close>\<close>

text \<open>
  Each phase starts one goroutine per item and gathers what they send on a channel. The
  order in which the goroutines deliver is not fixed by the program: it is the list the
  phase is given, some arrangement of the items.

  Discovery: a root whose walk fails sends nothing; the others send their files, which
  are appended, and add their number to the 32-bit counter.
\<close>

definition serverPath :: "string \<Rightarrow> string" where
  "serverPath server = server @ [backslash] @ ''path-to-file''"

definition discover_step ::
  "(share \<Rightarrow> string \<Rightarrow> smb_error + string list) \<Rightarrow> share \<Rightarrow>
   string list \<times> 32 word \<Rightarrow> string \<Rightarrow> string list \<times> 32 word" where
  "discover_step finder sh st server =
     (case st of
        (allLogFiles, allLogFilesCount) \<Rightarrow>
          (case finder sh (serverPath server) of
             Inl err \<Rightarrow> (allLogFiles, allLogFilesCount)
           | Inr fs \<Rightarrow> (allLogFiles @ fs, allLogFilesCount + of_nat (length fs))))"

definition discovery_phase ::
  "(share \<Rightarrow> string \<Rightarrow> smb_error + string list) \<Rightarrow> share \<Rightarrow> string list \<Rightarrow>
   string list \<times> 32 word" where
  "discovery_phase finder sh arrival =
     fold (\<lambda>server st. discover_step finder sh st server) arrival ([], 0)"

text \<open>
  Search: a scan that returns an error sends nothing, a scan that returns true sends its
  path, which is appended to the matches.
\<close>

definition search_step ::
  "(share \<Rightarrow> string \<Rightarrow> bytes \<Rightarrow> (smb_error + bool) \<times> share) \<Rightarrow> bytes \<Rightarrow>
   string list \<times> share \<Rightarrow> string \<Rightarrow> string list \<times> share" where
  "search_step scan searchString st path =
     (case st of
        (allFoundInFiles, sh) \<Rightarrow>
          (case scan sh path searchString of
             (Inl err, sh') \<Rightarrow> (allFoundInFiles, sh')
           | (Inr found, sh') \<Rightarrow>
               (if found then allFoundInFiles @ [path] else allFoundInFiles, sh')))"

definition search_phase ::
  "(share \<Rightarrow> string \<Rightarrow> bytes \<Rightarrow> (smb_error + bool) \<times> share) \<Rightarrow> share \<Rightarrow> bytes \<Rightarrow>
   string list \<Rightarrow> string list \<times> share" where
  "search_phase scan sh searchString arrival =
     fold (\<lambda>path st. search_step scan searchString st path) arrival ([], sh)"

text \<open>
  What \<open>main\<close> reports: no log files; or the number discovered and no match; or the
  number discovered and the matches in arrival order. \<open>schedule\<close> arranges the
  discovered files in the order their scans finish.
\<close>

datatype outcome =
  NoLogFiles
| NoMatches "32 word"
| SearchComplete "32 word" "string list"

definition main_search ::
  "(share \<Rightarrow> string \<Rightarrow> smb_error + string list) \<Rightarrow>
   (share \<Rightarrow> string \<Rightarrow> bytes \<Rightarrow> (smb_error + bool) \<times> share) \<Rightarrow>
   share \<Rightarrow> string list \<Rightarrow> (string list \<Rightarrow> string list) \<Rightarrow> bytes \<Rightarrow> outcome" where
  "main_search finder scan sh servers_arrival schedule searchString =
     (case discovery_phase finder sh servers_arrival of
        (allLogFiles, allLogFilesCount) \<Rightarrow>
          if length allLogFiles = 0 then NoLogFiles
          else
            (case search_phase scan sh searchString (schedule allLogFiles) of
               (allFoundInFiles, sh') \<Rightarrow>
                 if length allFoundInFiles = 0 then NoMatches allLogFilesCount
                 else SearchComplete allLogFilesCount allFoundInFiles))"

definition main_go_smb2 ::
  "decoder \<Rightarrow> share \<Rightarrow> string list \<Rightarrow> (string list \<Rightarrow> string list) \<Rightarrow> bytes \<Rightarrow> outcome" where
  "main_go_smb2 dec = main_search findLogFilesSMB (searchStringInFileSMB dec)"

definition main_smb_tool ::
  "decoder \<Rightarrow> share \<Rightarrow> string list \<Rightarrow> (string list \<Rightarrow> string list) \<Rightarrow> bytes \<Rightarrow> outcome" where
  "main_smb_tool dec = main_search findLogFilesSMB_smb_tool (searchStringInFileSMB_smb_tool dec)"

section \<open>The lines of a file and the UTF-16 decoder\<close>

text \<open>
  The lines of a byte stream as the specification speaks of them: the stream is cut
  after every line feed; a line that ends in a line feed loses it, and one carriage
  return before it; what follows the last line feed is a line when it is not empty.
\<close>

definition first_line :: "bytes \<Rightarrow> bytes" where
  "first_line bs =
     (let seg = takeWhile (\<lambda>c. c \<noteq> LF) bs in
      if LF \<in> set bs \<and> seg \<noteq> [] \<and> last seg = CR then butlast seg else seg)"

definition after_first_line :: "bytes \<Rightarrow> bytes" where
  "after_first_line bs = drop 1 (dropWhile (\<lambda>c. c \<noteq> LF) bs)"

lemma after_first_line_shorter: "bs \<noteq> [] \<Longrightarrow> length (after_first_line bs) < length bs"
proof -
  assume ne: "bs \<noteq> []"
  have "length (dropWhile (\<lambda>c. c \<noteq> LF) bs) \<le> length bs"
    by (rule length_dropWhile_le)
  moreover have "length (after_first_line bs) = length (dropWhile (\<lambda>c. c \<noteq> LF) bs) - 1"
    by (simp add: after_first_line_def)
  ultimately show ?thesis
    using ne by (cases bs) (simp_all del: dropWhile.simps)
qed

function file_lines :: "bytes \<Rightarrow> bytes list" where
  "file_lines bs = (if bs = [] then [] else first_line bs # file_lines (after_first_line bs))"
  by pat_completeness auto
termination
  by (relation "measure length") (auto simp: after_first_line_shorter)

declare file_lines.simps [simp del]

text \<open>
  The lines of a stream when \<open>acc\<close> has been read already as the beginning of its
  first line.
\<close>

definition prefix_first :: "bytes \<Rightarrow> bytes list \<Rightarrow> bytes list" where
  "prefix_first acc ls = (case ls of [] \<Rightarrow> [] | l # ls' \<Rightarrow> (acc @ l) # ls')"

text \<open>
  A model of the decoder \<open>unicode.UTF16(e, unicode.UseBOM).NewDecoder()\<close> run by
  \<open>transform.Bytes\<close>: a byte-order mark at the start sets the byte order and is
  skipped, otherwise the default order \<open>e\<close> is used; every 16-bit unit, or pair of
  surrogates, becomes the UTF-8 bytes of its code point; a lone surrogate or a single
  trailing byte becomes U+FFFD. It returns no error.
\<close>

definition utf8_encode :: "nat \<Rightarrow> bytes" where
  "utf8_encode r =
     (if r < 0x80 then [of_nat r]
      else if r < 0x800 then [of_nat (0xC0 + r div 64), of_nat (0x80 + r mod 64)]
      else if (0xD800 \<le> r \<and> r < 0xE000) \<or> 0x10FFFF < r then [0xEF, 0xBF, 0xBD]
      else if r < 0x10000 then
        [of_nat (0xE0 + r div 4096), of_nat (0x80 + (r div 64) mod 64), of_nat (0x80 + r mod 64)]
      else
        [of_nat (0xF0 + r div 262144), of_nat (0x80 + (r div 4096) mod 64),
         of_nat (0x80 + (r div 64) mod 64), of_nat (0x80 + r mod 64)])"

definition unit16 :: "endianness \<Rightarrow> byte \<Rightarrow> byte \<Rightarrow> nat" where
  "unit16 e b0 b1 =
     (case e of BigEndian \<Rightarrow> unat b0 * 256 + unat b1 | LittleEndian \<Rightarrow> unat b1 * 256 + unat b0)"

fun utf16_units :: "endianness \<Rightarrow> bytes \<Rightarrow> bytes" where
  "utf16_units e [] = []"
| "utf16_units e [b] = utf8_encode 0xFFFD"
| "utf16_units e (b0 # b1 # rest) =
     (let r = unit16 e b0 b1 in
      if 0xD800 \<le> r \<and> r < 0xE000 then
        (case rest of
           c0 # c1 # rest' \<Rightarrow>
             (let x = unit16 e c0 c1 in
              if 0xDC00 \<le> x \<and> x \<le> 0xDFFF then
                (if r < 0xDC00
                 then utf8_encode ((r - 0xD800) * 1024 + (x - 0xDC00) + 0x10000)
                 else utf8_encode 0xFFFD) @ utf16_units e rest'
              else utf8_encode 0xFFFD @ utf16_units e rest)
         | _ \<Rightarrow> utf8_encode 0xFFFD @ utf16_units e rest)
      else utf8_encode r @ utf16_units e rest)"

definition utf16_decoder :: decoder where
  "utf16_decoder e src =
     (if length src \<ge> 2 \<and> src ! 0 = 0xFE \<and> src ! 1 = 0xFF then Some (utf16_units BigEndian (drop 2 src))
      else if length src \<ge> 2 \<and> src ! 0 = 0xFF \<and> src ! 1 = 0xFE
      then Some (utf16_units LittleEndian (drop 2 src))
      else Some (utf16_units e src))"

section \<open>Files and shares the theorems are tried on\<close>

text \<open>Three lines, \<open>a\<close>, \<open>b\<close> and \<open>c\<close>, the second ended by CR LF; and the reader over
  that file once the second line has been read.\<close>

definition three_lines :: remote_file where
  "three_lines = \<lparr>content = [97, 10, 98, 13, 10, 99, 10], ending = AtEOF, end_with_data = False\<rparr>"

definition three_lines_after_match :: reader where
  "three_lines_after_match = (NewReader three_lines)\<lparr>rd_rest := [99, 10]\<rparr>"

text \<open>A share with no file, and a working directory with no file.\<close>

definition empty_share :: share where
  "empty_share = \<lparr>files = (\<lambda>name. None), walk = (\<lambda>path. ([], False)), opened = []\<rparr>"

definition empty_dir :: local_fs where
  "empty_dir = \<lparr>lfiles = (\<lambda>name. None), create_fails = (\<lambda>name. False)\<rparr>"

text \<open>
  Five log files under one root, on a share that reports its entries with slashes and
  opens a name written with either separator; \<open>c.log\<close> cannot be opened, \<open>a.log\<close> and
  \<open>d.log\<close> contain \<open>ERROR\<close>. \<open>five_paths\<close> are the five paths as discovery returns
  them, \<open>a_log\<close> is the first file.
\<close>

definition a_log :: remote_file where
  "a_log = \<lparr>content = [120, 32, 69, 82, 82, 79, 82, 10], ending = AtEOF, end_with_data = False\<rparr>"

definition five_files :: share where
  "five_files =
     \<lparr>files = (\<lambda>name.
        let n = ReplaceAll name backslash slash in
        if n = ''srv/path-to-file/a.log''
        then Some \<lparr>content = [120, 32, 69, 82, 82, 79, 82, 10], ending = AtEOF, end_with_data = False\<rparr>
        else if n = ''srv/path-to-file/b.log''
        then Some \<lparr>content = [111, 107, 10], ending = AtEOF, end_with_data = False\<rparr>
        else if n = ''srv/path-to-file/d.log''
        then Some \<lparr>content = [69, 82, 82, 79, 82], ending = AtEOF, end_with_data = False\<rparr>
        else if n = ''srv/path-to-file/e.log''
        then Some \<lparr>content = [], ending = AtEOF, end_with_data = False\<rparr>
        else None),
      walk = (\<lambda>path.
        if ReplaceAll path backslash slash = ''srv/path-to-file'' then
          ([Visit ''srv/path-to-file'' ''path-to-file'' True,
            Visit ''srv/path-to-file/a.log'' ''a.log'' False,
            Visit ''srv/path-to-file/b.log'' ''b.log'' False,
            Visit ''srv/path-to-file/c.log'' ''c.log'' False,
            Visit ''srv/path-to-file/d.log'' ''d.log'' False,
            Visit ''srv/path-to-file/e.log'' ''e.log'' False], False)
        else ([VisitError path], False)),
      opened = []\<rparr>"

definition five_paths :: "string list" where
  "five_paths =
     map (\<lambda>n. ReplaceAll n slash backslash)
       [''srv/path-to-file/a.log'', ''srv/path-to-file/b.log'', ''srv/path-to-file/c.log'',
        ''srv/path-to-file/d.log'', ''srv/path-to-file/e.log'']"

definition needle_ERROR :: bytes where
  "needle_ERROR = [69, 82, 82, 79, 82]"

text \<open>
  The UTF-16 little-endian text \<open>hi\<close> and a line feed, after a byte-order mark; a share
  that holds this file only; and a decoder that fails on every input.
\<close>

definition utf16_file :: remote_file where
  "utf16_file =
     \<lparr>content = [0xFF, 0xFE, 104, 0, 105, 0, 10, 0], ending = AtEOF, end_with_data = False\<rparr>"

definition utf16_share :: share where
  "utf16_share =
     \<lparr>files = (\<lambda>name. if name = ''a.log'' then Some utf16_file else None),
      walk = (\<lambda>path. ([], False)), opened = []\<rparr>"

definition failing_decoder :: decoder where
  "failing_decoder e src = None"

text \<open>
  A file of one line, ten buffers long, with no line end: 40959 times \<open>a\<close>, then \<open>b\<close>;
  and a file of exactly one buffer of \<open>a\<close> with no line end. The store reports the end
  of either file by a read of its own.
\<close>

definition long_line_file :: remote_file where
  "long_line_file =
     \<lparr>content = replicate 40959 97 @ [98], ending = AtEOF, end_with_data = False\<rparr>"

definition one_buffer_file :: remote_file where
  "one_buffer_file = \<lparr>content = replicate 4096 97, ending = AtEOF, end_with_data = False\<rparr>"

text \<open>
  A file of two lines: \<open>x\<close> with a line feed, then one buffer with no line end, 4095
  times \<open>a\<close> and \<open>b\<close>.
\<close>

definition two_line_file :: remote_file where
  "two_line_file =
     \<lparr>content = [120, 10] @ replicate 4095 97 @ [98], ending = AtEOF, end_with_data = False\<rparr>"

section \<open>What \<open>ReadLine\<close> returns, in terms of the lines of the stream\<close>

lemma LF_neq_CR [simp]: "LF \<noteq> CR" "CR \<noteq> LF"
  by (simp_all add: LF_def CR_def)

lemma ReadLine_empty:
  "rd_rest b = [] \<Longrightarrow> ReadLine b = (([], False, Some (end_error (rd_end b))), b)"
  by (simp add: ReadLine_def ReadSlice_def Let_def buflen_def minReadBufferSize_def)

lemma takeWhile_take_LF:
  "LF \<in> set (take n bs) \<Longrightarrow>
     takeWhile (\<lambda>c. c \<noteq> LF) (take n bs) = takeWhile (\<lambda>c. c \<noteq> LF) bs"
proof (induction bs arbitrary: n)
  case Nil
  then show ?case by simp
next
  case (Cons a bs)
  then show ?case by (cases n) auto
qed

lemma take_Suc_takeWhile:
  "LF \<in> set bs \<Longrightarrow>
     take (Suc (length (takeWhile (\<lambda>c. c \<noteq> LF) bs))) bs = takeWhile (\<lambda>c. c \<noteq> LF) bs @ [LF]"
  by (induction bs) auto

lemma drop_Suc_takeWhile:
  "drop (Suc (length (takeWhile (\<lambda>c. c \<noteq> LF) bs))) bs = after_first_line bs"
  by (induction bs) (auto simp: after_first_line_def)

lemma drop_eol_line:
  "LF \<in> set bs \<Longrightarrow> drop_eol (takeWhile (\<lambda>c. c \<noteq> LF) bs @ [LF]) = first_line bs"
proof -
  assume lf: "LF \<in> set bs"
  let ?seg = "takeWhile (\<lambda>c. c \<noteq> LF) bs"
  show ?thesis
  proof (cases "?seg = []")
    case True
    with lf show ?thesis by (simp add: drop_eol_def first_line_def)
  next
    case False
    then have "(?seg @ [LF]) ! (length ?seg - 1) = last ?seg"
      by (simp add: nth_append last_conv_nth)
    with False lf show ?thesis
      by (auto simp: drop_eol_def first_line_def Let_def butlast_conv_take)
  qed
qed

lemma takeWhile_LF_append:
  "LF \<notin> set c \<Longrightarrow> takeWhile (\<lambda>c. c \<noteq> LF) (c @ x) = c @ takeWhile (\<lambda>c. c \<noteq> LF) x"
  by (induction c) auto

lemma dropWhile_LF_append:
  "LF \<notin> set c \<Longrightarrow> dropWhile (\<lambda>c. c \<noteq> LF) (c @ x) = dropWhile (\<lambda>c. c \<noteq> LF) x"
  by (induction c) auto

lemma first_line_no_LF: "LF \<notin> set bs \<Longrightarrow> first_line bs = bs"
  by (auto simp: first_line_def Let_def)

lemma after_first_line_no_LF: "LF \<notin> set bs \<Longrightarrow> after_first_line bs = []"
proof -
  assume "LF \<notin> set bs"
  then have dw: "dropWhile (\<lambda>c. c \<noteq> LF) bs = []"
    using dropWhile_LF_append [of bs "[]"] by simp
  show ?thesis unfolding after_first_line_def dw by simp
qed

lemma drop_eol_no_LF: "bs \<noteq> [] \<Longrightarrow> LF \<notin> set bs \<Longrightarrow> drop_eol bs = bs"
  by (cases bs rule: rev_cases) (auto simp: drop_eol_def)

lemma ReadLine_complete:
  assumes "ReadLine b = ((l, False, None), b')"
  shows "rd_rest b \<noteq> [] \<and> l = first_line (rd_rest b) \<and>
         b' = b\<lparr>rd_rest := after_first_line (rd_rest b)\<rparr>"
proof (cases "LF \<in> set (take (buflen b) (rd_rest b))")
  case True
  then have lf: "LF \<in> set (rd_rest b)" by (auto dest: in_set_takeD)
  from True assms show ?thesis
    by (auto simp: ReadLine_def ReadSlice_def Let_def takeWhile_take_LF take_Suc_takeWhile [OF lf]
        drop_Suc_takeWhile drop_eol_line [OF lf] split: if_splits)
next
  case False
  have n: "16 \<le> buflen b" by (rule buflen_ge)
  from False assms have short: "length (rd_rest b) \<le> buflen b" and ne: "rd_rest b \<noteq> []"
    and l: "l = drop_eol (rd_rest b)" and b': "b' = b\<lparr>rd_rest := []\<rparr>"
    by (auto simp: ReadLine_def ReadSlice_def Let_def split: if_splits)
  from short False have nolf: "LF \<notin> set (rd_rest b)" by simp
  with ne l b' show ?thesis
    by (simp add: drop_eol_no_LF first_line_no_LF after_first_line_no_LF)
qed

lemma first_line_append:
  assumes "LF \<notin> set c" and "c = [] \<or> last c \<noteq> CR \<or> (\<exists>t. x = CR # t)"
  shows "first_line (c @ x) = c @ first_line x"
proof -
  let ?seg = "takeWhile (\<lambda>c. c \<noteq> LF) x"
  from assms(1) have tw: "takeWhile (\<lambda>c. c \<noteq> LF) (c @ x) = c @ ?seg"
    by (rule takeWhile_LF_append)
  show ?thesis
  proof (cases "?seg = []")
    case True
    then have "\<not> (\<exists>t. x = CR # t)" by auto
    with assms(2) have "c = [] \<or> last c \<noteq> CR" by simp
    with True tw assms(1) show ?thesis
      by (auto simp: first_line_def Let_def)
  next
    case False
    with tw assms(1) show ?thesis
      by (auto simp: first_line_def Let_def butlast_append)
  qed
qed

lemma after_first_line_append:
  "LF \<notin> set c \<Longrightarrow> after_first_line (c @ x) = after_first_line x"
  by (simp add: after_first_line_def dropWhile_LF_append)

lemma ReadLine_prefix:
  assumes "ReadLine b = ((c, True, e), b')"
  shows "e = None \<and> c \<noteq> [] \<and> LF \<notin> set c \<and> rd_rest b = c @ rd_rest b' \<and>
         (last c \<noteq> CR \<or> (\<exists>t. rd_rest b' = CR # t)) \<and>
         b' = b\<lparr>rd_rest := rd_rest b'\<rparr>"
proof -
  have n: "16 \<le> buflen b" by (rule buflen_ge)
  let ?w = "take (buflen b) (rd_rest b)"
  from assms have nolf: "LF \<notin> set ?w" and full: "buflen b \<le> length (rd_rest b)"
    by (auto simp: ReadLine_def ReadSlice_def Let_def split: if_splits)
  from full n have len: "length ?w = buflen b" and wne: "?w \<noteq> []" by auto
  show ?thesis
  proof (cases "last ?w = CR")
    case True
    with assms nolf wne have c: "c = butlast ?w" and b': "b' = b\<lparr>rd_rest := CR # drop (buflen b) (rd_rest b)\<rparr>"
      and e: "e = None"
      by (auto simp: ReadLine_def ReadSlice_def Let_def split: if_splits)
    from len n have "length c \<ge> 15" using c by simp
    then have cne: "c \<noteq> []" by auto
    from True wne have "?w = c @ [CR]" using c by (metis append_butlast_last_id)
    then have "rd_rest b = (c @ [CR]) @ drop (buflen b) (rd_rest b)"
      by (metis append_take_drop_id)
    moreover from nolf c have "LF \<notin> set c" by (auto dest: in_set_butlastD)
    ultimately show ?thesis using b' e cne by simp
  next
    case False
    with assms nolf wne have c: "c = ?w" and b': "b' = b\<lparr>rd_rest := drop (buflen b) (rd_rest b)\<rparr>"
      and e: "e = None"
      by (auto simp: ReadLine_def ReadSlice_def Let_def split: if_splits)
    with False nolf wne show ?thesis by simp
  qed
qed

lemma ReadLine_error:
  assumes "ReadLine b = ((l, p, Some e), b')"
  shows "rd_rest b = [] \<and> l = [] \<and> \<not> p \<and> e = end_error (rd_end b) \<and> b' = b"
proof -
  from assms have "rd_rest b = []" by (auto dest: ReadLine_error_rest)
  with assms show ?thesis by (auto simp: ReadLine_empty)
qed

section \<open>The scan loop of the go-smb2 program reads the lines of the file\<close>

lemma first_line_Nil [simp]: "first_line [] = []"
  by (simp add: first_line_def)

lemma after_first_line_Nil [simp]: "after_first_line [] = []"
  by (simp add: after_first_line_def)

lemma file_lines_Nil [simp]: "file_lines [] = []"
  by (simp add: file_lines.simps)

lemma file_lines_step:
  "bs \<noteq> [] \<Longrightarrow> file_lines bs = first_line bs # file_lines (after_first_line bs)"
  by (subst file_lines.simps) simp

lemma reader_rest_same: "rd_rest b = r \<Longrightarrow> b\<lparr>rd_rest := r\<rparr> = b"
  by simp

lemma read_continuation_line:
  "read_continuation acc p b = (Inr line, b') \<Longrightarrow>
     (if p then line = acc @ first_line (rd_rest b) \<and>
                b' = b\<lparr>rd_rest := after_first_line (rd_rest b)\<rparr>
      else line = acc \<and> b' = b)"
proof (induction acc p b rule: read_continuation.induct)
  case (1 acc p b)
  show ?case
  proof (cases p)
    case False
    with "1.prems" show ?thesis by (simp add: read_continuation.simps [of acc])
  next
    case True
    obtain mb mp e b1 where rl: "ReadLine b = ((mb, mp, e), b1)"
      by (metis prod.exhaust)
    show ?thesis
    proof (cases e)
      case (Some err)
      with rl have "rd_rest b = []" and "b1 = b" by (auto dest: ReadLine_error)
      with True rl Some "1.prems" show ?thesis
        by (auto simp: read_continuation.simps [of acc] split: if_splits)
    next
      case None
      with True rl "1.prems" have rc: "read_continuation (acc @ mb) mp b1 = (Inr line, b')"
        by (simp add: read_continuation.simps [of acc])
      from "1.IH" [OF True rl [symmetric] refl refl None rc]
      have ih: "if mp then line = (acc @ mb) @ first_line (rd_rest b1) \<and>
                  b' = b1\<lparr>rd_rest := after_first_line (rd_rest b1)\<rparr>
                else line = acc @ mb \<and> b' = b1" .
      show ?thesis
      proof (cases mp)
        case False
        with rl None have "mb = first_line (rd_rest b)"
          and "b1 = b\<lparr>rd_rest := after_first_line (rd_rest b)\<rparr>"
          by (auto dest: ReadLine_complete)
        with ih False True show ?thesis by simp
      next
        case mpT: True
        with rl have pf: "LF \<notin> set mb" "rd_rest b = mb @ rd_rest b1"
          "last mb \<noteq> CR \<or> (\<exists>t. rd_rest b1 = CR # t)" "b1 = b\<lparr>rd_rest := rd_rest b1\<rparr>"
          using ReadLine_prefix [of b mb e b1] by auto
        from pf(1,3) have "first_line (mb @ rd_rest b1) = mb @ first_line (rd_rest b1)"
          by (intro first_line_append) auto
        moreover from pf(1) have "after_first_line (mb @ rd_rest b1) = after_first_line (rd_rest b1)"
          by (rule after_first_line_append)
        moreover from pf(4) have "b1\<lparr>rd_rest := after_first_line (rd_rest b1)\<rparr> =
            b\<lparr>rd_rest := after_first_line (rd_rest b1)\<rparr>"
          by (metis reader.update_convs(1) reader.surjective reader.select_convs(1))
        ultimately show ?thesis using ih mpT True pf(2) by simp
      qed
    qed
  qed
qed

lemma read_continuation_at_EOF:
  "rd_end b = AtEOF \<Longrightarrow> \<exists>line b'. read_continuation acc p b = (Inr line, b')"
proof (induction acc p b rule: read_continuation.induct)
  case (1 acc p b)
  show ?case
  proof (cases p)
    case False
    then show ?thesis by (simp add: read_continuation.simps [of acc])
  next
    case True
    obtain mb mp e b1 where rl: "ReadLine b = ((mb, mp, e), b1)"
      by (metis prod.exhaust)
    show ?thesis
    proof (cases e)
      case (Some err)
      with rl "1.prems" have "err = EOF" by (auto dest: ReadLine_error simp: end_error_def)
      with True rl Some show ?thesis by (simp add: read_continuation.simps [of acc])
    next
      case None
      from rl "1.prems" have "rd_end b1 = AtEOF" by (auto dest: ReadLine_fields)
      from "1.IH" [OF True rl [symmetric] refl refl None this]
      show ?thesis using True rl None by (simp add: read_continuation.simps [of acc])
    qed
  qed
qed

lemma read_whole_line:
  assumes "ReadLine b = ((lb, p, None), b1)"
    and "read_continuation lb p b1 = (Inr line, b2)"
  shows "rd_rest b \<noteq> [] \<and> line = first_line (rd_rest b) \<and>
         b2 = b\<lparr>rd_rest := after_first_line (rd_rest b)\<rparr>"
proof (cases p)
  case False
  with assms show ?thesis
    by (auto dest: ReadLine_complete simp: read_continuation.simps [of lb])
next
  case True
  with assms(1) have pf: "lb \<noteq> []" "LF \<notin> set lb" "rd_rest b = lb @ rd_rest b1"
    "last lb \<noteq> CR \<or> (\<exists>t. rd_rest b1 = CR # t)" "b1 = b\<lparr>rd_rest := rd_rest b1\<rparr>"
    using ReadLine_prefix [of b lb None b1] by auto
  from assms(2) True have l: "line = lb @ first_line (rd_rest b1)"
    and b2: "b2 = b1\<lparr>rd_rest := after_first_line (rd_rest b1)\<rparr>"
    using read_continuation_line [of lb p b1 line b2] by auto
  from pf(2,4) have "first_line (lb @ rd_rest b1) = lb @ first_line (rd_rest b1)"
    by (intro first_line_append) auto
  moreover from pf(2) have "after_first_line (lb @ rd_rest b1) = after_first_line (rd_rest b1)"
    by (rule after_first_line_append)
  moreover from pf(5) have "b1\<lparr>rd_rest := after_first_line (rd_rest b1)\<rparr> =
      b\<lparr>rd_rest := after_first_line (rd_rest b1)\<rparr>"
    by (metis reader.update_convs(1) reader.surjective reader.select_convs(1))
  ultimately show ?thesis using l b2 pf(1,3) by simp
qed

lemma scan_lines_at_end:
  "rd_rest b = [] \<Longrightarrow>
     scan_lines dec s b =
       (if rd_end b = AtEOF then (Inr False, b) else (Inl ReadError, b))"
  by (cases "rd_end b") (simp_all add: scan_lines.simps [of dec s b] ReadLine_empty end_error_def)

lemma scan_lines_step_EOF:
  assumes "rd_end b = AtEOF" and "rd_rest b \<noteq> []"
  shows "scan_lines dec s b =
     (if Contains (decode_line dec (first_line (rd_rest b))) s
      then (Inr True, b\<lparr>rd_rest := after_first_line (rd_rest b)\<rparr>)
      else scan_lines dec s (b\<lparr>rd_rest := after_first_line (rd_rest b)\<rparr>))"
proof -
  obtain lb p e b1 where rl: "ReadLine b = ((lb, p, e), b1)"
    by (metis prod.exhaust)
  from rl assms(2) have e: "e = None" by (cases e) (auto dest: ReadLine_error)
  from rl assms(1) have "rd_end b1 = AtEOF" by (auto dest: ReadLine_fields)
  then obtain line b2 where rc: "read_continuation lb p b1 = (Inr line, b2)"
    using read_continuation_at_EOF by blast
  from read_whole_line [OF rl [unfolded e] rc]
  have "line = first_line (rd_rest b)" "b2 = b\<lparr>rd_rest := after_first_line (rd_rest b)\<rparr>"
    by auto
  with rl e rc show ?thesis by (simp add: scan_lines.simps [of dec s b])
qed

lemma scan_lines_exact:
  "rd_end b = AtEOF \<Longrightarrow>
     fst (scan_lines dec s b) =
       Inr (\<exists>l \<in> set (file_lines (rd_rest b)). Contains (decode_line dec l) s)"
proof (induction "length (rd_rest b)" arbitrary: b rule: less_induct)
  case less
  show ?case
  proof (cases "rd_rest b = []")
    case True
    with less.prems show ?thesis by (simp add: scan_lines_at_end)
  next
    case False
    let ?b' = "b\<lparr>rd_rest := after_first_line (rd_rest b)\<rparr>"
    from False have "length (rd_rest ?b') < length (rd_rest b)"
      by (simp add: after_first_line_shorter)
    moreover from less.prems have "rd_end ?b' = AtEOF" by simp
    ultimately have ih: "fst (scan_lines dec s ?b') =
        Inr (\<exists>l \<in> set (file_lines (rd_rest ?b')). Contains (decode_line dec l) s)"
      by (rule less.hyps)
    from False less.prems ih show ?thesis
      by (simp add: scan_lines_step_EOF file_lines_step)
  qed
qed

lemma first_line_LF:
  "LF \<notin> set ys \<Longrightarrow>
     first_line (ys @ LF # x) = (if ys \<noteq> [] \<and> last ys = CR then butlast ys else ys)"
  by (simp add: first_line_def takeWhile_LF_append)

lemma after_first_line_LF: "LF \<notin> set ys \<Longrightarrow> after_first_line (ys @ LF # x) = x"
  by (simp add: after_first_line_def dropWhile_LF_append)

lemma lines_split:
  assumes "bs \<noteq> []" and "after_first_line bs = pre2 @ r"
  shows "\<exists>pre. bs = pre @ r \<and> file_lines pre = first_line bs # file_lines pre2"
proof (cases "LF \<in> set bs")
  case False
  then have "after_first_line bs = []" by (rule after_first_line_no_LF)
  with assms(2) have "pre2 = []" "r = []" by auto
  with assms(1) False show ?thesis
    by (simp add: file_lines_step after_first_line_no_LF)
next
  case True
  then obtain ys zs where bs: "bs = ys @ LF # zs" and ys: "LF \<notin> set ys"
    by (auto dest: split_list_first)
  from bs ys assms(2) have zs: "zs = pre2 @ r" by (simp add: after_first_line_LF)
  let ?pre = "ys @ LF # pre2"
  from bs zs have "bs = ?pre @ r" by simp
  moreover from ys bs have "file_lines ?pre = first_line bs # file_lines pre2"
    by (simp add: file_lines_step first_line_LF after_first_line_LF)
  ultimately show ?thesis by blast
qed

lemma scan_lines_stops_at_match:
  "scan_lines dec s b = (Inr True, b') \<Longrightarrow>
     \<exists>pre. rd_rest b = pre @ rd_rest b' \<and>
       file_lines (rd_rest b) = file_lines pre @ file_lines (rd_rest b') \<and>
       file_lines pre \<noteq> [] \<and>
       Contains (decode_line dec (last (file_lines pre))) s \<and>
       (\<forall>l \<in> set (butlast (file_lines pre)). \<not> Contains (decode_line dec l) s)"
proof (induction "length (rd_rest b)" arbitrary: b rule: less_induct)
  case less
  obtain lb p e b1 where rl: "ReadLine b = ((lb, p, e), b1)"
    by (metis prod.exhaust)
  from rl less.prems have e: "e = None"
    by (cases e) (auto simp: scan_lines.simps [of dec s b] split: if_splits)
  obtain r b2 where rc: "read_continuation lb p b1 = (r, b2)"
    by (metis prod.exhaust)
  from rl e rc less.prems obtain line where r: "r = Inr line"
    by (cases r) (auto simp: scan_lines.simps [of dec s b])
  from read_whole_line [OF rl [unfolded e] rc [unfolded r]]
  have ne: "rd_rest b \<noteq> []" and line: "line = first_line (rd_rest b)"
    and b2: "b2 = b\<lparr>rd_rest := after_first_line (rd_rest b)\<rparr>"
    by auto
  show ?case
  proof (cases "Contains (decode_line dec line) s")
    case True
    with rl e rc r less.prems have "b' = b2" by (simp add: scan_lines.simps [of dec s b])
    with b2 have "after_first_line (rd_rest b) = [] @ rd_rest b'" by simp
    from lines_split [OF ne this] obtain pre where
      "rd_rest b = pre @ rd_rest b'" "file_lines pre = [first_line (rd_rest b)]"
      by auto
    moreover from this \<open>b' = b2\<close> b2 ne
    have "file_lines (rd_rest b) = file_lines pre @ file_lines (rd_rest b')"
      by (simp add: file_lines_step)
    ultimately show ?thesis using True line by auto
  next
    case False
    with rl e rc r less.prems have rec: "scan_lines dec s b2 = (Inr True, b')"
      by (simp add: scan_lines.simps [of dec s b])
    from b2 ne have "length (rd_rest b2) < length (rd_rest b)"
      by (simp add: after_first_line_shorter)
    from less.hyps [OF this rec] obtain pre2 where
      p2: "rd_rest b2 = pre2 @ rd_rest b'"
      "file_lines (rd_rest b2) = file_lines pre2 @ file_lines (rd_rest b')"
      "file_lines pre2 \<noteq> []"
      "Contains (decode_line dec (last (file_lines pre2))) s"
      "\<forall>l \<in> set (butlast (file_lines pre2)). \<not> Contains (decode_line dec l) s"
      by blast
    from p2(1) b2 have "after_first_line (rd_rest b) = pre2 @ rd_rest b'" by simp
    from lines_split [OF ne this] obtain pre where
      pre: "rd_rest b = pre @ rd_rest b'" "file_lines pre = first_line (rd_rest b) # file_lines pre2"
      by auto
    from ne b2 p2(2) pre(2)
    have "file_lines (rd_rest b) = file_lines pre @ file_lines (rd_rest b')"
      by (simp add: file_lines_step)
    with pre p2(3,4,5) False line show ?thesis by auto
  qed
qed

section \<open>The scan loop of \<open>smb_tool.go\<close> and the lines of the file\<close>

lemma HasPrefix_iff: "HasPrefix s p \<longleftrightarrow> (\<exists>q. s = p @ q)"
  by (induction s p rule: HasPrefix.induct) auto

lemma Contains_iff: "Contains s sub \<longleftrightarrow> (\<exists>p q. s = p @ sub @ q)"
proof (induction s)
  case Nil
  then show ?case by auto
next
  case (Cons x xs)
  show ?case
  proof
    assume "Contains (x # xs) sub"
    then consider "HasPrefix (x # xs) sub" | "Contains xs sub" by auto
    then show "\<exists>p q. x # xs = p @ sub @ q"
    proof cases
      case 1
      then obtain q where "x # xs = sub @ q" by (auto simp: HasPrefix_iff)
      then have "x # xs = [] @ sub @ q" by simp
      then show ?thesis by blast
    next
      case 2
      with Cons.IH obtain p q where "xs = p @ sub @ q" by auto
      then have "x # xs = (x # p) @ sub @ q" by simp
      then show ?thesis by blast
    qed
  next
    assume "\<exists>p q. x # xs = p @ sub @ q"
    then obtain p q where pq: "x # xs = p @ sub @ q" by auto
    show "Contains (x # xs) sub"
    proof (cases p)
      case Nil
      with pq have "HasPrefix (x # xs) sub" by (auto simp: HasPrefix_iff)
      then show ?thesis by simp
    next
      case (Cons a p')
      with pq have "xs = p' @ sub @ q" by simp
      with Cons.IH have "Contains xs sub" by blast
      then show ?thesis by simp
    qed
  qed
qed

lemma Contains_empty [simp]: "Contains s []"
  by (cases s) simp_all

lemma Contains_suffix: "Contains (xs @ sub) sub"
  unfolding Contains_iff by (rule exI [of _ xs], rule exI [of _ "[]"]) simp

lemma prefix_first_simps [simp]:
  "prefix_first acc [] = []"
  "prefix_first acc (l # ls) = (acc @ l) # ls"
  "prefix_first [] ls = ls"
  by (simp_all add: prefix_first_def split: list.splits)

lemma prefix_first_twice: "prefix_first acc (prefix_first c ls) = prefix_first (acc @ c) ls"
  by (cases ls) simp_all

lemma prefix_first_append: "ls \<noteq> [] \<Longrightarrow> prefix_first c (ls @ ms) = prefix_first c ls @ ms"
  by (cases ls) simp_all

lemma prefix_first_Nil_iff [simp]: "prefix_first c ls = [] \<longleftrightarrow> ls = []"
  by (cases ls) simp_all

lemma file_lines_Nil_iff [simp]: "file_lines bs = [] \<longleftrightarrow> bs = []"
  by (cases "bs = []") (simp_all add: file_lines_step)

lemma file_lines_prepend:
  assumes "LF \<notin> set c" and "x \<noteq> []" and "c = [] \<or> last c \<noteq> CR \<or> (\<exists>t. x = CR # t)"
  shows "file_lines (c @ x) = prefix_first c (file_lines x)"
  using assms by (simp add: file_lines_step first_line_append after_first_line_append)

lemma scan_smb_tool_at_end:
  "rd_rest b = [] \<Longrightarrow>
     scan_lines_smb_tool dec s u acc b =
       (if rd_end b = AtEOF then (Inr False, b) else (Inl ReadError, b))"
  by (cases "rd_end b")
     (simp_all add: scan_lines_smb_tool.simps [of dec s u acc b] ReadLine_empty end_error_def)

lemma scan_smb_tool_prefix:
  "ReadLine b = ((c, True, None), b1) \<Longrightarrow>
     scan_lines_smb_tool dec s u acc b = scan_lines_smb_tool dec s u (acc @ c) b1"
  by (simp add: scan_lines_smb_tool.simps [of dec s u acc b])

lemma scan_smb_tool_line:
  "ReadLine b = ((l, False, None), b1) \<Longrightarrow>
     scan_lines_smb_tool dec s False acc b =
       (if Contains (acc @ l) s then (Inr True, b1)
        else scan_lines_smb_tool dec s False [] b1)"
  by (simp add: scan_lines_smb_tool.simps [of dec s False acc b])

lemma scan_smb_tool_stops_at_match:
  "scan_lines_smb_tool dec s False acc b = (Inr True, b') \<Longrightarrow>
     \<exists>pre. rd_rest b = pre @ rd_rest b' \<and>
       file_lines (rd_rest b) = file_lines pre @ file_lines (rd_rest b') \<and>
       file_lines pre \<noteq> [] \<and>
       Contains (last (prefix_first acc (file_lines pre))) s \<and>
       (\<forall>l \<in> set (butlast (prefix_first acc (file_lines pre))). \<not> Contains l s)"
proof (induction "length (rd_rest b)" arbitrary: b acc rule: less_induct)
  case less
  obtain lb p e b1 where rl: "ReadLine b = ((lb, p, e), b1)"
    by (metis prod.exhaust)
  from rl less.prems have e: "e = None"
    by (cases e) (auto simp: scan_lines_smb_tool.simps [of dec s False acc b] split: if_splits)
  from rl e have shorter: "length (rd_rest b1) < length (rd_rest b)"
    by (auto dest: ReadLine_progress)
  show ?case
  proof (cases p)
    case True
    with rl e have pf: "LF \<notin> set lb" "rd_rest b = lb @ rd_rest b1"
      "last lb \<noteq> CR \<or> (\<exists>t. rd_rest b1 = CR # t)"
      using ReadLine_prefix [of b lb e b1] by auto
    from rl e True less.prems have "scan_lines_smb_tool dec s False (acc @ lb) b1 = (Inr True, b')"
      by (simp add: scan_smb_tool_prefix)
    from less.hyps [OF shorter this] obtain pre1 where
      p1: "rd_rest b1 = pre1 @ rd_rest b'"
      "file_lines (rd_rest b1) = file_lines pre1 @ file_lines (rd_rest b')"
      "file_lines pre1 \<noteq> []"
      "Contains (last (prefix_first (acc @ lb) (file_lines pre1))) s"
      "\<forall>l \<in> set (butlast (prefix_first (acc @ lb) (file_lines pre1))). \<not> Contains l s"
      by blast
    from p1(3) have pre1_ne: "pre1 \<noteq> []" by simp
    with p1(1) have r1_ne: "rd_rest b1 \<noteq> []" by simp
    from pf(3) p1(1) pre1_ne have c1: "lb = [] \<or> last lb \<noteq> CR \<or> (\<exists>t. pre1 = CR # t)"
      by (cases pre1) auto
    from pf(3) have c2: "lb = [] \<or> last lb \<noteq> CR \<or> (\<exists>t. rd_rest b1 = CR # t)" by simp
    have fl_pre: "file_lines (lb @ pre1) = prefix_first lb (file_lines pre1)"
      by (rule file_lines_prepend [OF pf(1) pre1_ne c1])
    have fl_all: "file_lines (lb @ rd_rest b1) = prefix_first lb (file_lines (rd_rest b1))"
      by (rule file_lines_prepend [OF pf(1) r1_ne c2])
    have "rd_rest b = (lb @ pre1) @ rd_rest b'" using pf(2) p1(1) by simp
    moreover have "file_lines (rd_rest b) = file_lines (lb @ pre1) @ file_lines (rd_rest b')"
      using pf(2) fl_all fl_pre p1(2,3) by (simp add: prefix_first_append)
    moreover have "file_lines (lb @ pre1) \<noteq> []" using pre1_ne by simp
    moreover have "prefix_first acc (file_lines (lb @ pre1)) =
        prefix_first (acc @ lb) (file_lines pre1)"
      using fl_pre by (simp add: prefix_first_twice)
    ultimately show ?thesis using p1(4,5) by metis
  next
    case False
    with rl e have ne: "rd_rest b \<noteq> []" and lb: "lb = first_line (rd_rest b)"
      and b1: "b1 = b\<lparr>rd_rest := after_first_line (rd_rest b)\<rparr>"
      by (auto dest: ReadLine_complete)
    show ?thesis
    proof (cases "Contains (acc @ lb) s")
      case True
      with rl e False less.prems have "b' = b1" by (simp add: scan_smb_tool_line)
      with b1 have "after_first_line (rd_rest b) = [] @ rd_rest b'" by simp
      from lines_split [OF ne this] obtain pre where
        "rd_rest b = pre @ rd_rest b'" "file_lines pre = [first_line (rd_rest b)]"
        by auto
      moreover from this \<open>b' = b1\<close> b1 ne
      have "file_lines (rd_rest b) = file_lines pre @ file_lines (rd_rest b')"
        by (simp add: file_lines_step)
      ultimately show ?thesis using True lb by auto
    next
      case nomatch: False
      with rl e False less.prems have rec: "scan_lines_smb_tool dec s False [] b1 = (Inr True, b')"
        by (simp add: scan_smb_tool_line)
      from less.hyps [OF shorter rec] obtain pre2 where
        p2: "rd_rest b1 = pre2 @ rd_rest b'"
        "file_lines (rd_rest b1) = file_lines pre2 @ file_lines (rd_rest b')"
        "file_lines pre2 \<noteq> []"
        "Contains (last (file_lines pre2)) s"
        "\<forall>l \<in> set (butlast (file_lines pre2)). \<not> Contains l s"
        by auto
      from p2(1) b1 have "after_first_line (rd_rest b) = pre2 @ rd_rest b'" by simp
      from lines_split [OF ne this] obtain pre where
        pre: "rd_rest b = pre @ rd_rest b'"
        "file_lines pre = first_line (rd_rest b) # file_lines pre2"
        by auto
      from ne b1 p2(2) pre(2)
      have "file_lines (rd_rest b) = file_lines pre @ file_lines (rd_rest b')"
        by (simp add: file_lines_step)
      with pre p2(3,4,5) nomatch lb show ?thesis by auto
    qed
  qed
qed

lemma scan_smb_tool_no_error:
  "rd_end b = AtEOF \<Longrightarrow> \<exists>found. fst (scan_lines_smb_tool dec s u acc b) = Inr found"
proof (induction "length (rd_rest b)" arbitrary: b acc rule: less_induct)
  case less
  obtain lb p e b1 where rl: "ReadLine b = ((lb, p, e), b1)"
    by (metis prod.exhaust)
  show ?case
  proof (cases e)
    case (Some err)
    with rl have "rd_rest b = []" by (auto dest: ReadLine_error)
    with less.prems have "fst (scan_lines_smb_tool dec s u acc b) = Inr False"
      by (simp add: scan_smb_tool_at_end)
    then show ?thesis by blast
  next
    case None
    with rl have shorter: "length (rd_rest b1) < length (rd_rest b)"
      by (auto dest: ReadLine_progress)
    from rl less.prems have "rd_end b1 = AtEOF" by (auto dest: ReadLine_fields)
    from less.hyps [OF shorter this]
    have ih: "\<And>acc. \<exists>found. fst (scan_lines_smb_tool dec s u acc b1) = Inr found" .
    from rl None ih [of "acc @ lb"] ih [of "[]"] show ?thesis
      by (auto simp: scan_lines_smb_tool.simps [of dec s u acc b] Let_def)
  qed
qed

lemma terminated_after:
  assumes "bs \<noteq> []" and "last bs = LF"
  shows "after_first_line bs = [] \<or> last (after_first_line bs) = LF"
proof -
  from assms have "LF \<in> set bs" by (metis last_in_set)
  then obtain ys zs where bs: "bs = ys @ LF # zs" and ys: "LF \<notin> set ys"
    by (auto dest: split_list_first)
  then have "after_first_line bs = zs" by (simp add: after_first_line_LF)
  with bs assms(2) show ?thesis by (cases "zs = []") auto
qed

lemma scan_smb_tool_exact:
  assumes "rd_end b = AtEOF" and "rd_rest b = [] \<or> last (rd_rest b) = LF"
  shows "fst (scan_lines_smb_tool dec s False acc b) =
           Inr (\<exists>l \<in> set (prefix_first acc (file_lines (rd_rest b))). Contains l s)"
  using assms
proof (induction "length (rd_rest b)" arbitrary: b acc rule: less_induct)
  case less
  show ?case
  proof (cases "rd_rest b = []")
    case True
    with less.prems show ?thesis by (simp add: scan_smb_tool_at_end)
  next
    case ne: False
    with less.prems have lastLF: "last (rd_rest b) = LF" by simp
    obtain lb p e b1 where rl: "ReadLine b = ((lb, p, e), b1)"
      by (metis prod.exhaust)
    from rl ne have e: "e = None" by (cases e) (auto dest: ReadLine_error)
    from rl e have shorter: "length (rd_rest b1) < length (rd_rest b)"
      by (auto dest: ReadLine_progress)
    from rl less.prems have end1: "rd_end b1 = AtEOF" by (auto dest: ReadLine_fields)
    show ?thesis
    proof (cases p)
      case True
      with rl e have pf: "LF \<notin> set lb" "rd_rest b = lb @ rd_rest b1"
        "last lb \<noteq> CR \<or> (\<exists>t. rd_rest b1 = CR # t)"
        using ReadLine_prefix [of b lb e b1] by auto
      have r1_ne: "rd_rest b1 \<noteq> []"
      proof
        assume "rd_rest b1 = []"
        with pf(2) have "rd_rest b = lb" by simp
        with ne lastLF have "LF \<in> set lb" by (metis last_in_set)
        with pf(1) show False by simp
      qed
      with pf(2) lastLF have term1: "rd_rest b1 = [] \<or> last (rd_rest b1) = LF" by simp
      from pf(3) have c2: "lb = [] \<or> last lb \<noteq> CR \<or> (\<exists>t. rd_rest b1 = CR # t)" by simp
      have fl_all: "file_lines (rd_rest b) = prefix_first lb (file_lines (rd_rest b1))"
        unfolding pf(2) by (rule file_lines_prepend [OF pf(1) r1_ne c2])
      from less.hyps [OF shorter end1 term1, of "acc @ lb"] rl e True
      show ?thesis by (simp add: scan_smb_tool_prefix fl_all prefix_first_twice)
    next
      case False
      with rl e have lb: "lb = first_line (rd_rest b)"
        and b1: "b1 = b\<lparr>rd_rest := after_first_line (rd_rest b)\<rparr>"
        by (auto dest: ReadLine_complete)
      from terminated_after [OF ne lastLF] b1
      have term1: "rd_rest b1 = [] \<or> last (rd_rest b1) = LF" by simp
      from less.hyps [OF shorter end1 term1, of "[]"] rl e False lb b1 ne
      show ?thesis by (simp add: scan_smb_tool_line file_lines_step)
    qed
  qed
qed

lemma scan_smb_tool_drops_unterminated:
  assumes "rd_end b = AtEOF" and "\<not> rd_end_with_data b"
    and "LF \<notin> set (rd_rest b)" and "CR \<notin> set (rd_rest b)"
    and "length (rd_rest b) = k * buflen b"
  shows "fst (scan_lines_smb_tool dec s u acc b) = Inr False"
  using assms
proof (induction k arbitrary: b acc)
  case 0
  then show ?case by (simp add: scan_smb_tool_at_end)
next
  case (Suc k)
  let ?n = "buflen b"
  let ?w = "take ?n (rd_rest b)"
  let ?b1 = "b\<lparr>rd_rest := drop ?n (rd_rest b)\<rparr>"
  have n: "16 \<le> ?n" by (rule buflen_ge)
  from Suc.prems(5) have len: "?n \<le> length (rd_rest b)" by simp
  with n have wne: "?w \<noteq> []" by auto
  from Suc.prems(3,4) have nolf: "LF \<notin> set ?w" and nocr: "CR \<notin> set ?w"
    by (auto dest: in_set_takeD)
  from wne nocr have lastw: "last ?w \<noteq> CR" by (metis last_in_set)
  from len n Suc.prems(2) nolf wne lastw
  have rl: "ReadLine b = ((?w, True, None), ?b1)"
    by (auto simp: ReadLine_def ReadSlice_def Let_def)
  have "buflen ?b1 = ?n" by (simp add: buflen_def)
  with Suc.prems have "fst (scan_lines_smb_tool dec s u (acc @ ?w) ?b1) = Inr False"
    by (intro Suc.IH) (auto dest: in_set_dropD)
  with rl show ?case by (simp add: scan_smb_tool_prefix)
qed

section \<open>The scanners, the phases and the fetcher: further facts\<close>

lemma NewReader_fields [simp]:
  "rd_rest (NewReader f) = content f"
  "rd_end (NewReader f) = ending f"
  "rd_end_with_data (NewReader f) = end_with_data f"
  "buflen (NewReader f) = 4096"
  by (simp_all add: NewReader_def NewReaderSize_def buflen_def minReadBufferSize_def
      defaultBufSize_def)

lemma search_go_smb2_result:
  "fst (searchStringInFileSMB dec sh p s) =
     (case files sh (ReplaceAll p backslash slash) of
        None \<Rightarrow> Inl OpenError
      | Some f \<Rightarrow> fst (scan_lines dec s (NewReader f)))"
  by (simp add: searchStringInFileSMB_def smbOpen_def Let_def split: option.splits)

lemma search_go_smb2_share:
  "snd (searchStringInFileSMB dec sh p s) =
     sh\<lparr>opened := opened sh @ [ReplaceAll p backslash slash]\<rparr>"
  by (simp add: searchStringInFileSMB_def smbOpen_def Let_def split: option.splits)

lemma search_smb_tool_result:
  "fst (searchStringInFileSMB_smb_tool dec sh p s) =
     (case files sh p of
        None \<Rightarrow> Inl OpenError
      | Some f \<Rightarrow> fst (scan_lines_smb_tool dec s False [] (NewReader f)))"
  by (simp add: searchStringInFileSMB_smb_tool_def smbOpen_def split: option.splits)

lemma search_smb_tool_share:
  "snd (searchStringInFileSMB_smb_tool dec sh p s) = sh\<lparr>opened := opened sh @ [p]\<rparr>"
  by (simp add: searchStringInFileSMB_smb_tool_def smbOpen_def split: option.splits)

lemma scan_lines_no_match_EOF:
  assumes "rd_end b = AtEOF"
    and "\<forall>l \<in> set (file_lines (rd_rest b)). \<not> Contains (decode_line dec l) s"
  shows "fst (scan_lines dec s b) = Inr False"
  using assms by (simp add: scan_lines_exact)

lemma scan_smb_tool_no_match_EOF:
  assumes "rd_end b = AtEOF"
    and "\<forall>l \<in> set (file_lines (rd_rest b)). \<not> Contains l s"
  shows "fst (scan_lines_smb_tool dec s False [] b) = Inr False"
proof -
  from assms(1) obtain found where f: "fst (scan_lines_smb_tool dec s False [] b) = Inr found"
    using scan_smb_tool_no_error by blast
  have "\<not> found"
  proof
    assume found
    with f obtain b' where "scan_lines_smb_tool dec s False [] b = (Inr True, b')"
      by (cases "scan_lines_smb_tool dec s False [] b") auto
    from scan_smb_tool_stops_at_match [OF this] obtain pre where
      "file_lines (rd_rest b) = file_lines pre @ file_lines (rd_rest b')"
      "file_lines pre \<noteq> []" "Contains (last (file_lines pre)) s"
      by auto
    moreover from this have "last (file_lines pre) \<in> set (file_lines (rd_rest b))"
      by simp
    ultimately show False using assms(2) by blast
  qed
  with f show ?thesis by simp
qed

lemma HasSuffix_iff: "HasSuffix s suffix \<longleftrightarrow> (\<exists>stem. s = stem @ suffix)"
proof
  assume h: "HasSuffix s suffix"
  then have "s = take (length s - length suffix) s @ suffix"
    by (metis HasSuffix_def append_take_drop_id)
  then show "\<exists>stem. s = stem @ suffix" ..
next
  assume "\<exists>stem. s = stem @ suffix"
  then show "HasSuffix s suffix" by (auto simp: HasSuffix_def)
qed

lemma walk_fold:
  "fold (\<lambda>v acc. walk_callback acc v) vs acc =
     acc @ concat (map (\<lambda>v. case v of
        Visit p name isDir \<Rightarrow>
          if \<not> isDir \<and> (\<exists>stem. ToLower name = stem @ ''.log'')
          then [ReplaceAll p slash backslash] else []
      | VisitError p \<Rightarrow> []) vs)"
  by (induction vs arbitrary: acc)
     (auto simp: walk_callback_def HasSuffix_iff split: visit.splits)

lemma walk_fold_smb_tool:
  "fold (\<lambda>v acc. walk_callback_smb_tool acc v) vs acc =
     acc @ concat (map (\<lambda>v. case v of
        Visit p name isDir \<Rightarrow>
          if \<not> isDir \<and> (\<exists>stem. ToLower name = stem @ ''.log'')
          then [ReplaceAll p slash backslash] else []
      | VisitError p \<Rightarrow> []) vs)"
  by (induction vs arbitrary: acc)
     (auto simp: walk_callback_smb_tool_def HasSuffix_iff split: visit.splits)

lemma suffix_APP_LOG: "HasSuffix (ToLower ''APP.LOG'') ''.log''"
  by code_simp

lemma suffix_logx: "\<not> HasSuffix (ToLower ''app.logx'') ''.log''"
  by code_simp

lemma discover_step_count:
  "snd st = of_nat (length (fst st)) \<Longrightarrow>
     snd (discover_step finder sh st server) = of_nat (length (fst (discover_step finder sh st server)))"
  by (cases st) (auto simp: discover_step_def split: sum.splits)

lemma discover_fold_count:
  "snd st = of_nat (length (fst st)) \<Longrightarrow>
     snd (fold (\<lambda>server st. discover_step finder sh st server) arrival st) =
       of_nat (length (fst (fold (\<lambda>server st. discover_step finder sh st server) arrival st)))"
  by (induction arrival arbitrary: st) (simp_all add: discover_step_count)

lemma discovery_phase_count:
  "discovery_phase finder sh arrival = (allLogFiles, allLogFilesCount) \<Longrightarrow>
     allLogFilesCount = of_nat (length allLogFiles)"
  using discover_fold_count [of "([], 0)" finder sh arrival]
  by (simp add: discovery_phase_def)

lemma sint_count: "n < 2 ^ 31 \<Longrightarrow> sint (of_nat n :: 32 word) = int n"
proof -
  assume "n < 2 ^ 31"
  then have "int n < 2 ^ 31" by (simp add: of_nat_less_numeral_power_cancel_iff [symmetric] del: of_nat_less_numeral_power_cancel_iff)
  then have "signed_take_bit 31 (int n) = int n"
    by (intro signed_take_bit_int_eq_self) simp_all
  then show ?thesis by (simp add: signed_of_nat)
qed

lemma search_fold:
  assumes pres: "\<And>sh p. files (snd (scan sh p s)) = files sh"
    and by_files: "\<And>sh sh' p. files sh = files sh' \<Longrightarrow> fst (scan sh p s) = fst (scan sh' p s)"
    and same: "files sh' = files sh"
  shows "fst (fold (\<lambda>path st. search_step scan s st path) arrival (acc, sh')) =
           acc @ filter (\<lambda>p. fst (scan sh p s) = Inr True) arrival"
  using same
proof (induction arrival arbitrary: acc sh')
  case Nil
  then show ?case by simp
next
  case (Cons p ps)
  obtain r sh2 where sc: "scan sh' p s = (r, sh2)" by (cases "scan sh' p s")
  from pres [of sh' p] sc Cons.prems have f2: "files sh2 = files sh" by simp
  from by_files [OF Cons.prems, of p] sc have r: "r = fst (scan sh p s)" by simp
  define acc2 where
    "acc2 = (case r of Inl e \<Rightarrow> acc | Inr found \<Rightarrow> if found then acc @ [p] else acc)"
  have step: "search_step scan s (acc, sh') p = (acc2, sh2)"
    using sc by (simp add: search_step_def acc2_def split: sum.splits)
  have "fst (fold (\<lambda>path st. search_step scan s st path) (p # ps) (acc, sh')) =
      fst (fold (\<lambda>path st. search_step scan s st path) ps (acc2, sh2))"
    by (simp add: step)
  also have "\<dots> = acc2 @ filter (\<lambda>p. fst (scan sh p s) = Inr True) ps"
    by (rule Cons.IH [OF f2])
  also have "\<dots> = acc @ filter (\<lambda>p. fst (scan sh p s) = Inr True) (p # ps)"
    unfolding acc2_def r by (auto split: sum.splits)
  finally show ?case .
qed

lemma search_phase_filter:
  assumes "\<And>sh p. files (snd (scan sh p s)) = files sh"
    and "\<And>sh sh' p. files sh = files sh' \<Longrightarrow> fst (scan sh p s) = fst (scan sh' p s)"
  shows "fst (search_phase scan sh s arrival) = filter (\<lambda>p. fst (scan sh p s) = Inr True) arrival"
  using search_fold [of scan s sh sh arrival "[]", OF assms] by (simp add: search_phase_def)

lemma search_phase_go_smb2:
  "fst (search_phase (searchStringInFileSMB dec) sh s arrival) =
     filter (\<lambda>p. fst (searchStringInFileSMB dec sh p s) = Inr True) arrival"
  by (rule search_phase_filter) (simp_all add: search_go_smb2_share search_go_smb2_result)

lemma search_phase_smb_tool:
  "fst (search_phase (searchStringInFileSMB_smb_tool dec) sh s arrival) =
     filter (\<lambda>p. fst (searchStringInFileSMB_smb_tool dec sh p s) = Inr True) arrival"
  by (rule search_phase_filter) (simp_all add: search_smb_tool_share search_smb_tool_result)

lemma main_search_outcome:
  assumes "discovery_phase finder sh servers = (C, cnt)" and "C \<noteq> []"
  shows "main_search finder scan sh servers schedule s =
     (if fst (search_phase scan sh s (schedule C)) = [] then NoMatches cnt
      else SearchComplete cnt (fst (search_phase scan sh s (schedule C))))"
  using assms by (simp add: main_search_def split: prod.splits)

lemma findLogFilesSMB_smb_tool_eq: "findLogFilesSMB_smb_tool = findLogFilesSMB"
  by (intro ext)
     (simp add: findLogFilesSMB_smb_tool_def findLogFilesSMB_def walk_fold walk_fold_smb_tool)

lemma starts_with_two:
  "(\<exists>rest. xs = a # b # rest) \<longleftrightarrow> length xs > 1 \<and> xs ! 0 = a \<and> xs ! 1 = b"
proof (cases xs)
  case Nil
  then show ?thesis by simp
next
  case (Cons x ys)
  then show ?thesis by (cases ys) auto
qed

lemma scan_smb_tool_ignores_decoder:
  "scan_lines_smb_tool dec s False acc b = scan_lines_smb_tool dec' s False acc b"
proof (induction "length (rd_rest b)" arbitrary: b acc rule: less_induct)
  case less
  obtain lb p e b1 where rl: "ReadLine b = ((lb, p, e), b1)"
    by (metis prod.exhaust)
  show ?case
  proof (cases e)
    case (Some err)
    with rl show ?thesis
      by (simp add: scan_lines_smb_tool.simps [of _ s False acc b])
  next
    case None
    with rl have "length (rd_rest b1) < length (rd_rest b)"
      by (auto dest: ReadLine_progress)
    then have ih: "\<And>acc. scan_lines_smb_tool dec s False acc b1 =
        scan_lines_smb_tool dec' s False acc b1"
      by (rule less.hyps)
    show ?thesis
    proof (cases p)
      case True
      with rl None have r: "ReadLine b = ((lb, True, None), b1)" by simp
      have "scan_lines_smb_tool dec s False acc b =
          scan_lines_smb_tool dec s False (acc @ lb) b1"
        by (rule scan_smb_tool_prefix [OF r])
      moreover have "scan_lines_smb_tool dec' s False acc b =
          scan_lines_smb_tool dec' s False (acc @ lb) b1"
        by (rule scan_smb_tool_prefix [OF r])
      ultimately show ?thesis using ih by simp
    next
      case False
      with rl None have r: "ReadLine b = ((lb, False, None), b1)" by simp
      have "scan_lines_smb_tool dec s False acc b =
          (if Contains (acc @ lb) s then (Inr True, b1)
           else scan_lines_smb_tool dec s False [] b1)"
        by (rule scan_smb_tool_line [OF r])
      moreover have "scan_lines_smb_tool dec' s False acc b =
          (if Contains (acc @ lb) s then (Inr True, b1)
           else scan_lines_smb_tool dec' s False [] b1)"
        by (rule scan_smb_tool_line [OF r])
      ultimately show ?thesis using ih by simp
    qed
  qed
qed

lemma utf16_decoder_hi_le:
  "utf16_decoder LittleEndian [0xFF, 0xFE, 104, 0, 105, 0] = Some [104, 105]"
  by (simp add: utf16_decoder_def unit16_def utf8_encode_def)

lemma utf16_decoder_hi_be:
  "utf16_decoder BigEndian [0xFE, 0xFF, 0, 104, 0, 105] = Some [104, 105]"
  by (simp add: utf16_decoder_def unit16_def utf8_encode_def)

lemma utf16_file_lines:
  "file_lines (content utf16_file) = [[0xFF, 0xFE, 104, 0, 105, 0], [0]]"
  by code_simp

lemma search_go_smb2_exact:
  assumes "files sh (ReplaceAll p backslash slash) = Some f" and "ending f = AtEOF"
  shows "fst (searchStringInFileSMB dec sh p s) =
           Inr (\<exists>l \<in> set (file_lines (content f)). Contains (decode_line dec l) s)"
  using assms scan_lines_exact [of "NewReader f" dec s]
  by (simp add: search_go_smb2_result)

lemma search_smb_tool_exact:
  assumes "files sh p = Some f" and "ending f = AtEOF"
    and "content f = [] \<or> last (content f) = LF"
  shows "fst (searchStringInFileSMB_smb_tool dec sh p s) =
           Inr (\<exists>l \<in> set (file_lines (content f)). Contains l s)"
  using assms scan_smb_tool_exact [of "NewReader f" dec s "[]"]
  by (simp add: search_smb_tool_result)

lemma long_line_content:
  "length (content long_line_file) = 10 * 4096"
  "LF \<notin> set (content long_line_file)"
  "CR \<notin> set (content long_line_file)"
  "content long_line_file \<noteq> []"
  "content long_line_file ! 0 = 97"
  by (simp_all add: long_line_file_def LF_def CR_def nth_append)

lemma single_line: "bs \<noteq> [] \<Longrightarrow> LF \<notin> set bs \<Longrightarrow> file_lines bs = [bs]"
  by (simp add: file_lines_step first_line_no_LF after_first_line_no_LF)

lemma go_smb2_empty_needle:
  "ending f = AtEOF \<Longrightarrow> fst (scan_lines dec [] (NewReader f)) = Inr (content f \<noteq> [])"
  using scan_lines_exact [of "NewReader f" dec "[]"] by (simp add: ex_in_conv)

lemma smb_tool_empty_needle:
  "ending f = AtEOF \<Longrightarrow> content f = [] \<or> last (content f) = LF \<Longrightarrow>
     fst (scan_lines_smb_tool dec [] False [] (NewReader f)) = Inr (content f \<noteq> [])"
  using scan_smb_tool_exact [of "NewReader f" dec "[]" "[]"] by (simp add: ex_in_conv)

lemma slash_neq_backslash [simp]: "slash \<noteq> backslash" "backslash \<noteq> slash"
  by (simp_all add: slash_def backslash_def)

lemma ReplaceAll_removes: "old \<noteq> new \<Longrightarrow> old \<notin> set (ReplaceAll s old new)"
  by (auto simp: ReplaceAll_def)

lemma discovered_paths_backslash:
  "findLogFilesSMB sh root = Inr found \<Longrightarrow> q \<in> set found \<Longrightarrow> slash \<notin> set q"
  by (cases "walk sh root")
     (auto simp: findLogFilesSMB_def walk_fold ReplaceAll_removes
       split: if_splits visit.splits)

lemma five_files_discovery:
  "findLogFilesSMB five_files (serverPath ''srv'') = Inr five_paths"
  by code_simp

lemma five_files_discovery_smb_tool:
  "findLogFilesSMB_smb_tool five_files (serverPath ''srv'') = Inr five_paths"
  by (simp add: findLogFilesSMB_smb_tool_eq five_files_discovery)

lemma takeWhile_until: "c \<notin> set xs \<Longrightarrow> takeWhile (\<lambda>x. x \<noteq> c) (xs @ c # ys) = xs"
  by (induction xs) auto

lemma takeWhile_all_not: "c \<notin> set xs \<Longrightarrow> takeWhile (\<lambda>x. x \<noteq> c) xs = xs"
  by (induction xs) auto

lemma filepath_Base_last_segment:
  assumes "name \<noteq> []" and "slash \<notin> set name"
  shows "filepath_Base (dir @ slash # name) = name"
proof -
  from assms have "hd (rev name) \<noteq> slash" by (metis hd_rev last_in_set)
  moreover from assms(1) have "rev name \<noteq> []" by simp
  ultimately have "dropWhile IsPathSeparator (rev name @ slash # rev dir) =
      rev name @ slash # rev dir"
    by (cases "rev name") (auto simp: IsPathSeparator_def)
  then have "strip_trailing (dir @ slash # name) = dir @ slash # name"
    by (simp add: strip_trailing_def)
  moreover have "last_element (dir @ slash # name) = name"
    using assms(2) takeWhile_until [of slash "rev name" "rev dir"]
    by (simp add: last_element_def IsPathSeparator_def)
  ultimately show ?thesis using assms(1) by (simp add: filepath_Base_def Let_def)
qed

lemma filepath_Base_plain_name:
  assumes "name \<noteq> []" and "slash \<notin> set name"
  shows "filepath_Base name = name"
proof -
  from assms have "hd (rev name) \<noteq> slash" by (metis hd_rev last_in_set)
  moreover from assms(1) have "rev name \<noteq> []" by simp
  ultimately have "dropWhile IsPathSeparator (rev name) = rev name"
    by (cases "rev name") (auto simp: IsPathSeparator_def)
  then have "strip_trailing name = name" by (simp add: strip_trailing_def)
  moreover have "last_element name = name"
  proof -
    have "takeWhile (\<lambda>c. \<not> IsPathSeparator c) (rev name) = rev name"
      unfolding IsPathSeparator_def using assms(2) by (intro takeWhile_all_not) simp
    then show ?thesis by (simp only: last_element_def rev_rev_ident)
  qed
  ultimately show ?thesis using assms(1) by (simp add: filepath_Base_def Let_def)
qed

lemma fetch_step_writes_one_file:
  assumes "fetch_step sh fs fileToFetch = Some (None, sh', fs')"
  shows "\<exists>f. files sh (ReplaceAll fileToFetch backslash slash) = Some f \<and>
           fs' = fs\<lparr>lfiles := (lfiles fs)(filepath_Base fileToFetch \<mapsto> content f)\<rparr>"
  using assms
  by (auto simp: fetch_step_def fetchFileSMB_def smbOpen_def os_Create_def io_Copy_def Let_def
      split: if_splits option.splits prod.splits stream_end.splits)

lemma fetch_step_smb_tool_writes_one_file:
  assumes "fetch_step_smb_tool sh fs fileToFetch = Some (None, sh', fs')"
  shows "\<exists>f. files sh fileToFetch = Some f \<and>
           fs' = fs\<lparr>lfiles := (lfiles fs)(filepath_Base fileToFetch \<mapsto> content f)\<rparr>"
  using assms
  by (auto simp: fetch_step_smb_tool_def fetchFileSMB_smb_tool_def smbOpen_def os_Create_def
      io_Copy_def Let_def split: if_splits option.splits prod.splits stream_end.splits)

lemma ReadLine_short_line:
  assumes "rd_rest b = l @ LF # r" and "LF \<notin> set l" and "length l < buflen b"
  shows "ReadLine b = ((first_line (rd_rest b), False, None), b\<lparr>rd_rest := r\<rparr>)"
proof -
  have lf: "LF \<in> set (rd_rest b)" using assms(1) by simp
  have "take (buflen b) (rd_rest b) = l @ LF # take (buflen b - Suc (length l)) r"
    using assms(1,3) by (simp add: take_Cons')
  then have w: "LF \<in> set (take (buflen b) (rd_rest b))" by simp
  have a: "after_first_line (rd_rest b) = r"
    using assms(1,2) by (simp add: after_first_line_LF)
  from w show ?thesis
    by (simp add: ReadLine_def ReadSlice_def Let_def takeWhile_take_LF take_Suc_takeWhile [OF lf]
        drop_Suc_takeWhile drop_eol_line [OF lf] a)
qed

lemma go_smb2_first_match_short_circuits:
  assumes "ending f = AtEOF"
    and "\<exists>l \<in> set (file_lines (content f)). Contains (decode_line dec l) s"
  shows "\<exists>b' pre. scan_lines dec s (NewReader f) = (Inr True, b') \<and>
           content f = pre @ rd_rest b' \<and>
           file_lines (content f) = file_lines pre @ file_lines (rd_rest b') \<and>
           file_lines pre \<noteq> [] \<and>
           Contains (decode_line dec (last (file_lines pre))) s \<and>
           (\<forall>l \<in> set (butlast (file_lines pre)). \<not> Contains (decode_line dec l) s)"
proof -
  from assms have "fst (scan_lines dec s (NewReader f)) = Inr True"
    using scan_lines_exact [of "NewReader f" dec s] by simp
  then obtain b' where r: "scan_lines dec s (NewReader f) = (Inr True, b')"
    by (cases "scan_lines dec s (NewReader f)") auto
  from scan_lines_stops_at_match [OF r] r show ?thesis by auto
qed

lemma two_line_content:
  "content two_line_file = [120] @ LF # (replicate 4095 97 @ [98])"
  "LF \<notin> set (replicate 4095 97 @ [98 :: byte])"
  "CR \<notin> set (replicate 4095 97 @ [98 :: byte])"
  "LF \<notin> set [120 :: byte]"
  "length (replicate 4095 97 @ [98 :: byte]) = 1 * 4096"
  by (simp_all add: two_line_file_def LF_def CR_def)

lemma two_line_file_lines:
  "file_lines (content two_line_file) = [[120], replicate 4095 97 @ [98]]"
proof -
  have "first_line (content two_line_file) = [120]"
    unfolding two_line_content(1)
    using first_line_LF [of "[120]" "replicate 4095 97 @ [98]"] two_line_content(4)
    by (simp add: CR_def)
  moreover have "after_first_line (content two_line_file) = replicate 4095 97 @ [98]"
    unfolding two_line_content(1)
    using after_first_line_LF [of "[120]" "replicate 4095 97 @ [98]"] two_line_content(4)
    by simp
  moreover have "content two_line_file \<noteq> []" by (simp add: two_line_content(1))
  moreover have "file_lines (replicate 4095 97 @ [98 :: byte]) = [replicate 4095 97 @ [98]]"
    by (rule single_line) (simp, rule two_line_content(2))
  ultimately show ?thesis by (simp add: file_lines_step)
qed

text \<open>
  When a scan returns true, the line it stopped at is the first that contains the
  search string, and the reader still holds every later line unread; at the end of the
  file with no line matching the scan returns false and no error; the test is for a
  literal substring. Both programs.
\<close>

lemma scans_stop_at_first_match:
  "(scan_lines dec s (NewReader f) = (Inr True, b') \<longrightarrow>
      (\<exists>pre. content f = pre @ rd_rest b' \<and>
         file_lines (content f) = file_lines pre @ file_lines (rd_rest b') \<and>
         file_lines pre \<noteq> [] \<and>
         Contains (decode_line dec (last (file_lines pre))) s \<and>
         (\<forall>l \<in> set (butlast (file_lines pre)). \<not> Contains (decode_line dec l) s))) \<and>
   (scan_lines_smb_tool dec s False [] (NewReader f) = (Inr True, b'') \<longrightarrow>
      (\<exists>pre. content f = pre @ rd_rest b'' \<and>
         file_lines (content f) = file_lines pre @ file_lines (rd_rest b'') \<and>
         file_lines pre \<noteq> [] \<and>
         Contains (last (file_lines pre)) s \<and>
         (\<forall>l \<in> set (butlast (file_lines pre)). \<not> Contains l s))) \<and>
   (ending f = AtEOF \<and> (\<forall>l \<in> set (file_lines (content f)). \<not> Contains (decode_line dec l) s) \<longrightarrow>
      fst (scan_lines dec s (NewReader f)) = Inr False) \<and>
   (ending f = AtEOF \<and> (\<forall>l \<in> set (file_lines (content f)). \<not> Contains l s) \<longrightarrow>
      fst (scan_lines_smb_tool dec s False [] (NewReader f)) = Inr False) \<and>
   (Contains l s \<longleftrightarrow> (\<exists>p q. l = p @ s @ q))"
proof (intro conjI impI)
  assume "scan_lines dec s (NewReader f) = (Inr True, b')"
  from scan_lines_stops_at_match [OF this]
  show "\<exists>pre. content f = pre @ rd_rest b' \<and>
         file_lines (content f) = file_lines pre @ file_lines (rd_rest b') \<and>
         file_lines pre \<noteq> [] \<and>
         Contains (decode_line dec (last (file_lines pre))) s \<and>
         (\<forall>l \<in> set (butlast (file_lines pre)). \<not> Contains (decode_line dec l) s)"
    by simp
next
  assume "scan_lines_smb_tool dec s False [] (NewReader f) = (Inr True, b'')"
  from scan_smb_tool_stops_at_match [OF this]
  show "\<exists>pre. content f = pre @ rd_rest b'' \<and>
         file_lines (content f) = file_lines pre @ file_lines (rd_rest b'') \<and>
         file_lines pre \<noteq> [] \<and>
         Contains (last (file_lines pre)) s \<and>
         (\<forall>l \<in> set (butlast (file_lines pre)). \<not> Contains l s)"
    by simp
next
  assume "ending f = AtEOF \<and> (\<forall>l \<in> set (file_lines (content f)). \<not> Contains (decode_line dec l) s)"
  then show "fst (scan_lines dec s (NewReader f)) = Inr False"
    by (intro scan_lines_no_match_EOF) simp_all
next
  assume "ending f = AtEOF \<and> (\<forall>l \<in> set (file_lines (content f)). \<not> Contains l s)"
  then show "fst (scan_lines_smb_tool dec s False [] (NewReader f)) = Inr False"
    by (intro scan_smb_tool_no_match_EOF) simp_all
next
  show "Contains l s = (\<exists>p q. l = p @ s @ q)" by (rule Contains_iff)
qed

text \<open>
  On the three lines: the scan for \<open>b\<close> stops after the second line with the third
  unread, the scan for \<open>z\<close> ends with false. Both programs.
\<close>

lemma scans_stop_at_first_match_three_lines:
  "scan_lines utf16_decoder [98] (NewReader three_lines) = (Inr True, three_lines_after_match) \<and>
   (\<exists>pre. content three_lines = pre @ rd_rest three_lines_after_match \<and>
      file_lines (content three_lines) =
        file_lines pre @ file_lines (rd_rest three_lines_after_match) \<and>
      file_lines pre \<noteq> [] \<and>
      Contains (decode_line utf16_decoder (last (file_lines pre))) [98] \<and>
      (\<forall>l \<in> set (butlast (file_lines pre)). \<not> Contains (decode_line utf16_decoder l) [98])) \<and>
   scan_lines_smb_tool utf16_decoder [98] False [] (NewReader three_lines) =
     (Inr True, three_lines_after_match) \<and>
   (\<exists>pre. content three_lines = pre @ rd_rest three_lines_after_match \<and>
      file_lines (content three_lines) =
        file_lines pre @ file_lines (rd_rest three_lines_after_match) \<and>
      file_lines pre \<noteq> [] \<and>
      Contains (last (file_lines pre)) [98] \<and>
      (\<forall>l \<in> set (butlast (file_lines pre)). \<not> Contains l [98])) \<and>
   ending three_lines = AtEOF \<and>
   fst (scan_lines utf16_decoder [122] (NewReader three_lines)) = Inr False \<and>
   fst (scan_lines_smb_tool utf16_decoder [122] False [] (NewReader three_lines)) = Inr False"
proof -
  have a: "scan_lines utf16_decoder [98] (NewReader three_lines) =
      (Inr True, three_lines_after_match)"
    by code_simp
  have b: "scan_lines_smb_tool utf16_decoder [98] False [] (NewReader three_lines) =
      (Inr True, three_lines_after_match)"
    by code_simp
  have c: "ending three_lines = AtEOF \<and>
      (\<forall>l \<in> set (file_lines (content three_lines)).
         \<not> Contains (decode_line utf16_decoder l) [122])"
    by code_simp
  have d: "ending three_lines = AtEOF \<and>
      (\<forall>l \<in> set (file_lines (content three_lines)). \<not> Contains l [122])"
    by code_simp
  note found = scans_stop_at_first_match
    [of utf16_decoder "[98]" three_lines three_lines_after_match three_lines_after_match]
  note absent = scans_stop_at_first_match [of utf16_decoder "[122]" three_lines]
  from found a have e1: "\<exists>pre. content three_lines = pre @ rd_rest three_lines_after_match \<and>
      file_lines (content three_lines) =
        file_lines pre @ file_lines (rd_rest three_lines_after_match) \<and>
      file_lines pre \<noteq> [] \<and>
      Contains (decode_line utf16_decoder (last (file_lines pre))) [98] \<and>
      (\<forall>l \<in> set (butlast (file_lines pre)). \<not> Contains (decode_line utf16_decoder l) [98])"
    by blast
  from found b have e2: "\<exists>pre. content three_lines = pre @ rd_rest three_lines_after_match \<and>
      file_lines (content three_lines) =
        file_lines pre @ file_lines (rd_rest three_lines_after_match) \<and>
      file_lines pre \<noteq> [] \<and>
      Contains (last (file_lines pre)) [98] \<and>
      (\<forall>l \<in> set (butlast (file_lines pre)). \<not> Contains l [98])"
    by blast
  from absent c have e3: "fst (scan_lines utf16_decoder [122] (NewReader three_lines)) = Inr False"
    by blast
  from absent d
  have e4: "fst (scan_lines_smb_tool utf16_decoder [122] False [] (NewReader three_lines)) = Inr False"
    by blast
  from c have e5: "ending three_lines = AtEOF" by simp
  from a e1 b e2 e5 e3 e4 show ?thesis by (intro conjI)
qed

section \<open>The claims\<close>

text \<open>
  C1, for each of the two programs. For candidates without repetition, gathered in any
  arrival order, the matches are among the candidates and none is repeated. In the
  go-smb2 program a
  candidate that opens and is read to the end of the file is a match exactly when one
  of its lines, decoded as its byte-order mark says, contains the search string. In
  \<open>smb_tool.go\<close> no line is decoded: a candidate that opens, is read to the end of the
  file and ends its last line with a line feed is a match exactly when one of its
  lines contains the search string as raw bytes. A candidate that does not open is no
  match in either.
\<close>

theorem C1_match_set:
  assumes "mset arrival = mset C" and "distinct C"
  shows "set (fst (search_phase (searchStringInFileSMB dec) sh s arrival)) \<subseteq> set C \<and>
         distinct (fst (search_phase (searchStringInFileSMB dec) sh s arrival)) \<and>
         (\<forall>p f. p \<in> set C \<and> files sh (ReplaceAll p backslash slash) = Some f \<and>
                ending f = AtEOF \<longrightarrow>
            (p \<in> set (fst (search_phase (searchStringInFileSMB dec) sh s arrival)) \<longleftrightarrow>
             (\<exists>l \<in> set (file_lines (content f)). Contains (decode_line dec l) s))) \<and>
         (\<forall>p. files sh (ReplaceAll p backslash slash) = None \<longrightarrow>
            p \<notin> set (fst (search_phase (searchStringInFileSMB dec) sh s arrival))) \<and>
         set (fst (search_phase (searchStringInFileSMB_smb_tool dec) sh s arrival)) \<subseteq> set C \<and>
         distinct (fst (search_phase (searchStringInFileSMB_smb_tool dec) sh s arrival)) \<and>
         (\<forall>p f. p \<in> set C \<and> files sh p = Some f \<and> ending f = AtEOF \<and>
                (content f = [] \<or> last (content f) = LF) \<longrightarrow>
            (p \<in> set (fst (search_phase (searchStringInFileSMB_smb_tool dec) sh s arrival)) \<longleftrightarrow>
             (\<exists>l \<in> set (file_lines (content f)). Contains l s))) \<and>
         (\<forall>p. files sh p = None \<longrightarrow>
            p \<notin> set (fst (search_phase (searchStringInFileSMB_smb_tool dec) sh s arrival)))"
proof -
  from assms(1) have sets: "set arrival = set C" by (rule mset_eq_setD)
  from assms have dist: "distinct arrival" by (metis mset_eq_imp_distinct_iff)
  let ?P = "\<lambda>p. fst (searchStringInFileSMB dec sh p s) = Inr True"
  let ?Q = "\<lambda>p. fst (searchStringInFileSMB_smb_tool dec sh p s) = Inr True"
  have a: "set (filter ?P arrival) \<subseteq> set C" using sets by auto
  have b: "distinct (filter ?P arrival)" using dist by simp
  have c: "\<forall>p f. p \<in> set C \<and> files sh (ReplaceAll p backslash slash) = Some f \<and>
                ending f = AtEOF \<longrightarrow>
            (p \<in> set (filter ?P arrival) \<longleftrightarrow>
             (\<exists>l \<in> set (file_lines (content f)). Contains (decode_line dec l) s))"
    using sets by (auto simp: search_go_smb2_exact)
  have d: "\<forall>p. files sh (ReplaceAll p backslash slash) = None \<longrightarrow> p \<notin> set (filter ?P arrival)"
    by (simp add: search_go_smb2_result)
  have a': "set (filter ?Q arrival) \<subseteq> set C" using sets by auto
  have b': "distinct (filter ?Q arrival)" using dist by simp
  have c': "\<forall>p f. p \<in> set C \<and> files sh p = Some f \<and> ending f = AtEOF \<and>
                (content f = [] \<or> last (content f) = LF) \<longrightarrow>
            (p \<in> set (filter ?Q arrival) \<longleftrightarrow>
             (\<exists>l \<in> set (file_lines (content f)). Contains l s))"
    using sets by (auto simp: search_smb_tool_exact)
  have d': "\<forall>p. files sh p = None \<longrightarrow> p \<notin> set (filter ?Q arrival)"
    by (simp add: search_smb_tool_result)
  from a b c d a' b' c' d' show ?thesis
    unfolding search_phase_go_smb2 search_phase_smb_tool by (intro conjI)
qed

text \<open>
  C1 on the five files, gathered in reverse order: \<open>a.log\<close> is a match in both
  programs, \<open>c.log\<close>, which does not open, is none.
\<close>

theorem C1_match_set_witness:
  "mset (rev five_paths) = mset five_paths \<and> distinct five_paths \<and>
   set (fst (search_phase (searchStringInFileSMB utf16_decoder) five_files needle_ERROR
          (rev five_paths))) \<subseteq> set five_paths \<and>
   distinct (fst (search_phase (searchStringInFileSMB utf16_decoder) five_files needle_ERROR
          (rev five_paths))) \<and>
   files five_files (ReplaceAll (five_paths ! 0) backslash slash) = Some a_log \<and>
   ((five_paths ! 0) \<in> set (fst (search_phase (searchStringInFileSMB utf16_decoder) five_files
          needle_ERROR (rev five_paths))) \<longleftrightarrow>
    (\<exists>l \<in> set (file_lines (content a_log)). Contains (decode_line utf16_decoder l) needle_ERROR)) \<and>
   files five_files (five_paths ! 0) = Some a_log \<and>
   ((five_paths ! 0) \<in> set (fst (search_phase (searchStringInFileSMB_smb_tool utf16_decoder)
          five_files needle_ERROR (rev five_paths))) \<longleftrightarrow>
    (\<exists>l \<in> set (file_lines (content a_log)). Contains l needle_ERROR)) \<and>
   (five_paths ! 2) \<notin> set (fst (search_phase (searchStringInFileSMB utf16_decoder) five_files
          needle_ERROR (rev five_paths)))"
proof -
  have m: "mset (rev five_paths) = mset five_paths" by simp
  have dist: "distinct five_paths" by code_simp
  note inst = C1_match_set
    [where arrival = "rev five_paths" and C = five_paths and dec = utf16_decoder
       and sh = five_files and s = needle_ERROR, OF m dist]
  have h1: "five_paths ! 0 \<in> set five_paths \<and>
      files five_files (ReplaceAll (five_paths ! 0) backslash slash) = Some a_log \<and>
      ending a_log = AtEOF"
    by code_simp
  have h2: "five_paths ! 0 \<in> set five_paths \<and>
      files five_files (five_paths ! 0) = Some a_log \<and> ending a_log = AtEOF \<and>
      (content a_log = [] \<or> last (content a_log) = LF)"
    by code_simp
  have h3: "files five_files (ReplaceAll (five_paths ! 2) backslash slash) = None"
    by code_simp
  note c1 = inst [THEN conjunct1]
  note c2 = inst [THEN conjunct2, THEN conjunct1]
  note c3 = inst [THEN conjunct2, THEN conjunct2, THEN conjunct1, rule_format, OF h1]
  note c4 = inst [THEN conjunct2, THEN conjunct2, THEN conjunct2, THEN conjunct1, rule_format, OF h3]
  note c7 = inst [THEN conjunct2, THEN conjunct2, THEN conjunct2, THEN conjunct2, THEN conjunct2,
      THEN conjunct2, THEN conjunct1, rule_format, OF h2]
  from h1 have f1: "files five_files (ReplaceAll (five_paths ! 0) backslash slash) = Some a_log"
    by simp
  from h2 have f2: "files five_files (five_paths ! 0) = Some a_log" by simp
  from m dist c1 c2 f1 c3 f2 c7 c4 show ?thesis by (intro conjI)
qed

text \<open>
  C1 with the decoding of C2 does not hold of \<open>smb_tool.go\<close>: the only candidate holds
  a line that contains \<open>hi\<close> once decoded as its byte-order mark says, and is not among
  the matches.
\<close>

theorem C1_smb_tool_misses_utf16_match:
  "files utf16_share ''a.log'' = Some utf16_file \<and>
   Contains (decode_line utf16_decoder (hd (file_lines (content utf16_file)))) [104, 105] \<and>
   fst (search_phase (searchStringInFileSMB_smb_tool utf16_decoder) utf16_share [104, 105]
          [''a.log'']) = []"
proof (intro conjI)
  show "files utf16_share ''a.log'' = Some utf16_file" by (simp add: utf16_share_def)
  show "Contains (decode_line utf16_decoder (hd (file_lines (content utf16_file)))) [104, 105]"
    by (simp add: utf16_file_lines decode_line_def utf16_decoder_hi_le)
  show "fst (search_phase (searchStringInFileSMB_smb_tool utf16_decoder) utf16_share [104, 105]
          [''a.log'']) = []"
    by code_simp
qed

text \<open>
  C2, for each of the two programs. In the go-smb2 program every line the scanner
  reassembles is tested
  after this decoding: a line that starts with FF FE is what the little-endian UTF-16
  decoder makes of it, a line that starts with FE FF what the big-endian decoder makes
  of it, any other line is left as it is, and a line the decoder fails on is left as
  it is; with a file read to its end the scan returns a boolean whatever the decoder
  does. In \<open>smb_tool.go\<close> the decoder is never asked: the scan is the same with any
  decoder, every line is tested as its raw bytes.
\<close>

theorem C2_bom_decoding:
  "((\<exists>rest. line = 0xFF # 0xFE # rest) \<and> dec LittleEndian line = Some decoded \<longrightarrow>
      decode_line dec line = decoded) \<and>
   ((\<exists>rest. line = 0xFE # 0xFF # rest) \<and> dec BigEndian line = Some decoded \<longrightarrow>
      decode_line dec line = decoded) \<and>
   (\<not> (\<exists>rest. line = 0xFF # 0xFE # rest) \<and> \<not> (\<exists>rest. line = 0xFE # 0xFF # rest) \<longrightarrow>
      decode_line dec line = line) \<and>
   (dec LittleEndian line = None \<and> dec BigEndian line = None \<longrightarrow>
      decode_line dec line = line) \<and>
   (ending f = AtEOF \<longrightarrow>
      fst (scan_lines dec s (NewReader f)) =
        Inr (\<exists>l \<in> set (file_lines (content f)). Contains (decode_line dec l) s)) \<and>
   scan_lines_smb_tool dec s False [] (NewReader f) =
     scan_lines_smb_tool dec' s False [] (NewReader f) \<and>
   (ending f = AtEOF \<and> (content f = [] \<or> last (content f) = LF) \<longrightarrow>
      fst (scan_lines_smb_tool dec s False [] (NewReader f)) =
        Inr (\<exists>l \<in> set (file_lines (content f)). Contains l s))"
proof (intro conjI impI)
  assume "(\<exists>rest. line = 0xFF # 0xFE # rest) \<and> dec LittleEndian line = Some decoded"
  then show "decode_line dec line = decoded"
    by (simp add: starts_with_two decode_line_def)
next
  assume "(\<exists>rest. line = 0xFE # 0xFF # rest) \<and> dec BigEndian line = Some decoded"
  then show "decode_line dec line = decoded"
    by (simp add: starts_with_two decode_line_def)
next
  assume "\<not> (\<exists>rest. line = 0xFF # 0xFE # rest) \<and> \<not> (\<exists>rest. line = 0xFE # 0xFF # rest)"
  then show "decode_line dec line = line"
    unfolding starts_with_two decode_line_def by auto
next
  assume "dec LittleEndian line = None \<and> dec BigEndian line = None"
  then show "decode_line dec line = line"
    by (simp add: decode_line_def)
next
  assume "ending f = AtEOF"
  then show "fst (scan_lines dec s (NewReader f)) =
      Inr (\<exists>l \<in> set (file_lines (content f)). Contains (decode_line dec l) s)"
    using scan_lines_exact [of "NewReader f" dec s] by simp
next
  show "scan_lines_smb_tool dec s False [] (NewReader f) =
      scan_lines_smb_tool dec' s False [] (NewReader f)"
    by (rule scan_smb_tool_ignores_decoder)
next
  assume "ending f = AtEOF \<and> (content f = [] \<or> last (content f) = LF)"
  then show "fst (scan_lines_smb_tool dec s False [] (NewReader f)) =
      Inr (\<exists>l \<in> set (file_lines (content f)). Contains l s)"
    using scan_smb_tool_exact [of "NewReader f" dec s "[]"] by simp
qed

text \<open>
  C2 on the text \<open>hi\<close> in both byte orders, on a line with no mark, with a decoder that
  fails, and on the UTF-16 file.
\<close>

theorem C2_bom_decoding_witness:
  "utf16_decoder LittleEndian [0xFF, 0xFE, 104, 0, 105, 0] = Some [104, 105] \<and>
   decode_line utf16_decoder [0xFF, 0xFE, 104, 0, 105, 0] = [104, 105] \<and>
   utf16_decoder BigEndian [0xFE, 0xFF, 0, 104, 0, 105] = Some [104, 105] \<and>
   decode_line utf16_decoder [0xFE, 0xFF, 0, 104, 0, 105] = [104, 105] \<and>
   decode_line utf16_decoder [104, 105] = [104, 105] \<and>
   decode_line failing_decoder [0xFF, 0xFE, 104, 0, 105, 0] = [0xFF, 0xFE, 104, 0, 105, 0] \<and>
   ending utf16_file = AtEOF \<and>
   fst (scan_lines utf16_decoder [104, 105] (NewReader utf16_file)) =
     Inr (\<exists>l \<in> set (file_lines (content utf16_file)).
            Contains (decode_line utf16_decoder l) [104, 105]) \<and>
   fst (scan_lines failing_decoder [104, 105] (NewReader utf16_file)) =
     Inr (\<exists>l \<in> set (file_lines (content utf16_file)).
            Contains (decode_line failing_decoder l) [104, 105]) \<and>
   scan_lines_smb_tool utf16_decoder [104, 105] False [] (NewReader utf16_file) =
     scan_lines_smb_tool failing_decoder [104, 105] False [] (NewReader utf16_file)"
proof -
  have le: "(\<exists>rest. [0xFF, 0xFE, 104, 0, 105, 0] = 0xFF # 0xFE # (rest :: bytes)) \<and>
      utf16_decoder LittleEndian [0xFF, 0xFE, 104, 0, 105, 0] = Some [104, 105]"
    by (simp add: utf16_decoder_hi_le)
  have be: "(\<exists>rest. [0xFE, 0xFF, 0, 104, 0, 105] = 0xFE # 0xFF # (rest :: bytes)) \<and>
      utf16_decoder BigEndian [0xFE, 0xFF, 0, 104, 0, 105] = Some [104, 105]"
    by (simp add: utf16_decoder_hi_be)
  have no: "\<not> (\<exists>rest. [104, 105] = 0xFF # 0xFE # (rest :: bytes)) \<and>
      \<not> (\<exists>rest. [104, 105] = 0xFE # 0xFF # (rest :: bytes))"
    by simp
  have fl: "failing_decoder LittleEndian [0xFF, 0xFE, 104, 0, 105, 0] = None \<and>
      failing_decoder BigEndian [0xFF, 0xFE, 104, 0, 105, 0] = None"
    by (simp add: failing_decoder_def)
  have en: "ending utf16_file = AtEOF" by (simp add: utf16_file_def)
  have c1: "decode_line utf16_decoder [0xFF, 0xFE, 104, 0, 105, 0] = [104, 105]"
    by (rule C2_bom_decoding
        [where dec = utf16_decoder and line = "[0xFF, 0xFE, 104, 0, 105, 0]" and decoded = "[104, 105]",
         THEN conjunct1, THEN mp, OF le])
  have c2: "decode_line utf16_decoder [0xFE, 0xFF, 0, 104, 0, 105] = [104, 105]"
    by (rule C2_bom_decoding
        [where dec = utf16_decoder and line = "[0xFE, 0xFF, 0, 104, 0, 105]"
           and decoded = "[104, 105]",
         THEN conjunct2, THEN conjunct1, THEN mp, OF be])
  have c3: "decode_line utf16_decoder [104, 105] = [104, 105]"
    by (rule C2_bom_decoding
        [where dec = utf16_decoder and line = "[104, 105]",
         THEN conjunct2, THEN conjunct2, THEN conjunct1, THEN mp, OF no])
  have c4: "decode_line failing_decoder [0xFF, 0xFE, 104, 0, 105, 0] =
      [0xFF, 0xFE, 104, 0, 105, 0]"
    by (rule C2_bom_decoding
        [where dec = failing_decoder and line = "[0xFF, 0xFE, 104, 0, 105, 0]",
         THEN conjunct2, THEN conjunct2, THEN conjunct2, THEN conjunct1, THEN mp, OF fl])
  have c5: "fst (scan_lines utf16_decoder [104, 105] (NewReader utf16_file)) =
      Inr (\<exists>l \<in> set (file_lines (content utf16_file)).
             Contains (decode_line utf16_decoder l) [104, 105])"
    by (rule C2_bom_decoding
        [where dec = utf16_decoder and f = utf16_file and s = "[104, 105]",
         THEN conjunct2, THEN conjunct2, THEN conjunct2, THEN conjunct2, THEN conjunct1,
         THEN mp, OF en])
  have c6: "fst (scan_lines failing_decoder [104, 105] (NewReader utf16_file)) =
      Inr (\<exists>l \<in> set (file_lines (content utf16_file)).
             Contains (decode_line failing_decoder l) [104, 105])"
    by (rule C2_bom_decoding
        [where dec = failing_decoder and f = utf16_file and s = "[104, 105]",
         THEN conjunct2, THEN conjunct2, THEN conjunct2, THEN conjunct2, THEN conjunct1,
         THEN mp, OF en])
  have c7: "scan_lines_smb_tool utf16_decoder [104, 105] False [] (NewReader utf16_file) =
      scan_lines_smb_tool failing_decoder [104, 105] False [] (NewReader utf16_file)"
    by (rule C2_bom_decoding
        [where dec = utf16_decoder and dec' = failing_decoder and f = utf16_file
           and s = "[104, 105]",
         THEN conjunct2, THEN conjunct2, THEN conjunct2, THEN conjunct2, THEN conjunct2,
         THEN conjunct1])
  from utf16_decoder_hi_le c1 utf16_decoder_hi_be c2 c3 c4 en c5 c6 c7
  show ?thesis by (intro conjI)
qed

text \<open>
  C2 as the specification states it does not hold of \<open>smb_tool.go\<close>: the first line of
  the file starts with FF FE and its UTF-16 decoding is \<open>hi\<close>, yet the scan for \<open>hi\<close>
  finds nothing (the go-smb2 program finds it).
\<close>

theorem C2_smb_tool_leaves_bom_line_raw:
  "hd (file_lines (content utf16_file)) = [0xFF, 0xFE, 104, 0, 105, 0] \<and>
   utf16_decoder LittleEndian [0xFF, 0xFE, 104, 0, 105, 0] = Some [104, 105] \<and>
   fst (scan_lines_smb_tool utf16_decoder [104, 105] False [] (NewReader utf16_file)) = Inr False \<and>
   fst (scan_lines utf16_decoder [104, 105] (NewReader utf16_file)) = Inr True"
proof (intro conjI)
  show "hd (file_lines (content utf16_file)) = [0xFF, 0xFE, 104, 0, 105, 0]"
    by (simp add: utf16_file_lines)
  show "utf16_decoder LittleEndian [0xFF, 0xFE, 104, 0, 105, 0] = Some [104, 105]"
    by (rule utf16_decoder_hi_le)
  show "fst (scan_lines_smb_tool utf16_decoder [104, 105] False [] (NewReader utf16_file)) =
      Inr False"
    by code_simp
  have "ending utf16_file = AtEOF" by (simp add: utf16_file_def)
  then have "fst (scan_lines utf16_decoder [104, 105] (NewReader utf16_file)) =
      Inr (\<exists>l \<in> set (file_lines (content utf16_file)).
             Contains (decode_line utf16_decoder l) [104, 105])"
    using scan_lines_exact [of "NewReader utf16_file" utf16_decoder "[104, 105]"] by simp
  also have "\<dots> = Inr True"
    by (simp add: utf16_file_lines decode_line_def utf16_decoder_hi_le)
  finally show "fst (scan_lines utf16_decoder [104, 105] (NewReader utf16_file)) = Inr True" .
qed

text \<open>
  C3. An entry the walk visits is added to the candidates exactly when it is not a
  directory and its lowered name ends in \<open>.log\<close>; the candidates of a walk are those
  entries, in walk order, with backslashes for slashes. \<open>APP.LOG\<close> is added,
  \<open>app.logx\<close> is not, a directory \<open>app.log\<close> is not. Both programs.
\<close>

theorem C3_discovery_filter:
  "walk_callback logFiles (Visit p name isDir) =
     (if \<not> isDir \<and> (\<exists>stem. ToLower name = stem @ ''.log'')
      then logFiles @ [ReplaceAll p slash backslash] else logFiles) \<and>
   walk_callback_smb_tool logFiles (Visit p name isDir) =
     (if \<not> isDir \<and> (\<exists>stem. ToLower name = stem @ ''.log'')
      then logFiles @ [ReplaceAll p slash backslash] else logFiles) \<and>
   findLogFilesSMB sh path =
     (if snd (walk sh path) then Inl WalkError
      else Inr (concat (map (\<lambda>v. case v of
          Visit p name isDir \<Rightarrow>
            if \<not> isDir \<and> (\<exists>stem. ToLower name = stem @ ''.log'')
            then [ReplaceAll p slash backslash] else []
        | VisitError p \<Rightarrow> []) (fst (walk sh path))))) \<and>
   findLogFilesSMB_smb_tool sh path =
     (if snd (walk sh path) then Inl WalkError
      else Inr (concat (map (\<lambda>v. case v of
          Visit p name isDir \<Rightarrow>
            if \<not> isDir \<and> (\<exists>stem. ToLower name = stem @ ''.log'')
            then [ReplaceAll p slash backslash] else []
        | VisitError p \<Rightarrow> []) (fst (walk sh path))))) \<and>
   walk_callback logFiles (Visit p ''APP.LOG'' False) = logFiles @ [ReplaceAll p slash backslash] \<and>
   walk_callback logFiles (Visit p ''app.logx'' False) = logFiles \<and>
   walk_callback logFiles (Visit p ''app.log'' True) = logFiles \<and>
   walk_callback_smb_tool logFiles (Visit p ''APP.LOG'' False) =
     logFiles @ [ReplaceAll p slash backslash] \<and>
   walk_callback_smb_tool logFiles (Visit p ''app.logx'' False) = logFiles \<and>
   walk_callback_smb_tool logFiles (Visit p ''app.log'' True) = logFiles"
proof (intro conjI)
  show "findLogFilesSMB sh path =
     (if snd (walk sh path) then Inl WalkError
      else Inr (concat (map (\<lambda>v. case v of
          Visit p name isDir \<Rightarrow>
            if \<not> isDir \<and> (\<exists>stem. ToLower name = stem @ ''.log'')
            then [ReplaceAll p slash backslash] else []
        | VisitError p \<Rightarrow> []) (fst (walk sh path)))))"
    by (cases "walk sh path") (simp add: findLogFilesSMB_def walk_fold)
  show "findLogFilesSMB_smb_tool sh path =
     (if snd (walk sh path) then Inl WalkError
      else Inr (concat (map (\<lambda>v. case v of
          Visit p name isDir \<Rightarrow>
            if \<not> isDir \<and> (\<exists>stem. ToLower name = stem @ ''.log'')
            then [ReplaceAll p slash backslash] else []
        | VisitError p \<Rightarrow> []) (fst (walk sh path)))))"
    by (cases "walk sh path") (simp add: findLogFilesSMB_smb_tool_def walk_fold_smb_tool)
qed (simp_all add: walk_callback_def walk_callback_smb_tool_def HasSuffix_iff [symmetric]
      suffix_APP_LOG suffix_logx)

text \<open>
  C4. On the ten-buffer line whose last byte alone is the search string, \<open>smb_tool.go\<close>
  returns false: the end of the file arrives while the line is still being collected,
  and the loop leaves without testing what it has collected. The go-smb2 program
  returns true.
\<close>

theorem C4_smb_tool_drops_unterminated_long_line:
  "length (content long_line_file) = 10 * defaultBufSize \<and>
   file_lines (content long_line_file) = [content long_line_file] \<and>
   Contains (content long_line_file) [98] \<and>
   fst (scan_lines_smb_tool dec [98] False [] (NewReader long_line_file)) = Inr False \<and>
   fst (scan_lines dec [98] (NewReader long_line_file)) = Inr True"
proof (intro conjI)
  show "length (content long_line_file) = 10 * defaultBufSize"
    by (simp add: long_line_content defaultBufSize_def)
  show fl: "file_lines (content long_line_file) = [content long_line_file]"
    by (rule single_line) (rule long_line_content)+
  show c: "Contains (content long_line_file) [98]"
    unfolding long_line_file_def by (simp add: Contains_suffix)
  have e: "rd_end (NewReader long_line_file) = AtEOF"
    and d: "\<not> rd_end_with_data (NewReader long_line_file)"
    by (simp_all add: long_line_file_def)
  show "fst (scan_lines_smb_tool dec [98] False [] (NewReader long_line_file)) = Inr False"
    by (rule scan_smb_tool_drops_unterminated [where k = 10, OF e d])
       (simp_all add: long_line_content)
  have "decode_line dec (content long_line_file) = content long_line_file"
    by (simp add: decode_line_def long_line_content)
  with scan_lines_exact [OF e, of dec "[98]"] fl c
  show "fst (scan_lines dec [98] (NewReader long_line_file)) = Inr True"
    by simp
qed

text \<open>
  C5. A scan that returns an open or read error sends no path and stops nothing: the
  matches are the discovered files whose own scan returns true, whatever the other
  scans return, and the outcome carries the number of files discovered (below
  \<open>2^31\<close>, the range of the 32-bit counter). Both programs.
\<close>

theorem C5_failed_scan_is_non_match:
  assumes "discovery_phase findLogFilesSMB sh servers = (C, cnt)"
    and "C \<noteq> []" and "length C < 2 ^ 31" and "mset (schedule C) = mset C"
  shows "(\<exists>found.
            main_go_smb2 dec sh servers schedule s =
              (if found = [] then NoMatches cnt else SearchComplete cnt found) \<and>
            set found = {p \<in> set C. fst (searchStringInFileSMB dec sh p s) = Inr True} \<and>
            (\<forall>p e. fst (searchStringInFileSMB dec sh p s) = Inl e \<longrightarrow> p \<notin> set found)) \<and>
         (\<exists>found.
            main_smb_tool dec sh servers schedule s =
              (if found = [] then NoMatches cnt else SearchComplete cnt found) \<and>
            set found = {p \<in> set C. fst (searchStringInFileSMB_smb_tool dec sh p s) = Inr True} \<and>
            (\<forall>p e. fst (searchStringInFileSMB_smb_tool dec sh p s) = Inl e \<longrightarrow> p \<notin> set found)) \<and>
         sint cnt = int (length C)"
proof (intro conjI)
  from assms(4) have sets: "set (schedule C) = set C" by (rule mset_eq_setD)
  let ?found = "filter (\<lambda>p. fst (searchStringInFileSMB dec sh p s) = Inr True) (schedule C)"
  have "main_go_smb2 dec sh servers schedule s =
      (if ?found = [] then NoMatches cnt else SearchComplete cnt ?found)"
    unfolding main_go_smb2_def
    by (simp only: main_search_outcome [OF assms(1,2)] search_phase_go_smb2)
  moreover have "set ?found = {p \<in> set C. fst (searchStringInFileSMB dec sh p s) = Inr True}"
    using sets by auto
  moreover have "\<forall>p e. fst (searchStringInFileSMB dec sh p s) = Inl e \<longrightarrow> p \<notin> set ?found"
    by auto
  ultimately show "\<exists>found.
      main_go_smb2 dec sh servers schedule s =
        (if found = [] then NoMatches cnt else SearchComplete cnt found) \<and>
      set found = {p \<in> set C. fst (searchStringInFileSMB dec sh p s) = Inr True} \<and>
      (\<forall>p e. fst (searchStringInFileSMB dec sh p s) = Inl e \<longrightarrow> p \<notin> set found)"
    by blast
  let ?found' =
    "filter (\<lambda>p. fst (searchStringInFileSMB_smb_tool dec sh p s) = Inr True) (schedule C)"
  from assms(1) have d': "discovery_phase findLogFilesSMB_smb_tool sh servers = (C, cnt)"
    by (simp add: findLogFilesSMB_smb_tool_eq)
  have "main_smb_tool dec sh servers schedule s =
      (if ?found' = [] then NoMatches cnt else SearchComplete cnt ?found')"
    unfolding main_smb_tool_def
    by (simp only: main_search_outcome [OF d' assms(2)] search_phase_smb_tool)
  moreover have "set ?found' =
      {p \<in> set C. fst (searchStringInFileSMB_smb_tool dec sh p s) = Inr True}"
    using sets by auto
  moreover have
    "\<forall>p e. fst (searchStringInFileSMB_smb_tool dec sh p s) = Inl e \<longrightarrow> p \<notin> set ?found'"
    by auto
  ultimately show "\<exists>found.
      main_smb_tool dec sh servers schedule s =
        (if found = [] then NoMatches cnt else SearchComplete cnt found) \<and>
      set found = {p \<in> set C. fst (searchStringInFileSMB_smb_tool dec sh p s) = Inr True} \<and>
      (\<forall>p e. fst (searchStringInFileSMB_smb_tool dec sh p s) = Inl e \<longrightarrow> p \<notin> set found)"
    by blast
  from discovery_phase_count [OF assms(1)] assms(3) show "sint cnt = int (length C)"
    by (simp add: sint_count)
qed

text \<open>
  C5 on the five files, one of which cannot be opened: both programs report five files
  discovered and the two matches, in the order their scans finish.
\<close>

theorem C5_failed_scan_is_non_match_witness:
  "discovery_phase findLogFilesSMB five_files [''srv''] = (five_paths, 5) \<and>
   length five_paths = 5 \<and>
   mset (rev five_paths) = mset five_paths \<and>
   fst (searchStringInFileSMB utf16_decoder five_files (five_paths ! 2) needle_ERROR) = Inl OpenError \<and>
   fst (searchStringInFileSMB_smb_tool utf16_decoder five_files (five_paths ! 2) needle_ERROR) =
     Inl OpenError \<and>
   main_go_smb2 utf16_decoder five_files [''srv''] rev needle_ERROR =
     SearchComplete 5 [five_paths ! 3, five_paths ! 0] \<and>
   main_smb_tool utf16_decoder five_files [''srv''] rev needle_ERROR =
     SearchComplete 5 [five_paths ! 3, five_paths ! 0] \<and>
   (\<exists>found.
      main_go_smb2 utf16_decoder five_files [''srv''] rev needle_ERROR =
        (if found = [] then NoMatches 5 else SearchComplete 5 found) \<and>
      set found =
        {p \<in> set five_paths.
           fst (searchStringInFileSMB utf16_decoder five_files p needle_ERROR) = Inr True}) \<and>
   sint (5 :: 32 word) = int (length five_paths)"
proof -
  have d: "discovery_phase findLogFilesSMB five_files [''srv''] = (five_paths, 5)"
    by code_simp
  have l: "length five_paths = 5" by code_simp
  then have ne: "five_paths \<noteq> []" and small: "length five_paths < 2 ^ 31" by auto
  have m: "mset (rev five_paths) = mset five_paths" by simp
  have o1: "fst (searchStringInFileSMB utf16_decoder five_files (five_paths ! 2) needle_ERROR) =
      Inl OpenError"
    by code_simp
  have o2: "fst (searchStringInFileSMB_smb_tool utf16_decoder five_files (five_paths ! 2) needle_ERROR) =
      Inl OpenError"
    by code_simp
  have r1: "main_go_smb2 utf16_decoder five_files [''srv''] rev needle_ERROR =
      SearchComplete 5 [five_paths ! 3, five_paths ! 0]"
    by code_simp
  have r2: "main_smb_tool utf16_decoder five_files [''srv''] rev needle_ERROR =
      SearchComplete 5 [five_paths ! 3, five_paths ! 0]"
    by code_simp
  note inst = C5_failed_scan_is_non_match
    [where schedule = rev and dec = utf16_decoder and s = needle_ERROR, OF d ne small m]
  from inst have e: "\<exists>found.
      main_go_smb2 utf16_decoder five_files [''srv''] rev needle_ERROR =
        (if found = [] then NoMatches 5 else SearchComplete 5 found) \<and>
      set found =
        {p \<in> set five_paths.
           fst (searchStringInFileSMB utf16_decoder five_files p needle_ERROR) = Inr True}"
    by blast
  from inst have c: "sint (5 :: 32 word) = int (length five_paths)" by blast
  from d l m o1 o2 r1 r2 e c show ?thesis by (intro conjI)
qed

text \<open>
  C6, for each of the two programs. In the go-smb2 program the scanner and the fetcher
  call \<open>Open\<close> with
  the path in which every backslash has become a slash; in \<open>smb_tool.go\<close> they call it
  with the path as given. In both programs the paths discovery returns have a
  backslash for every slash.
\<close>

theorem C6_paths_passed_to_open:
  "opened (snd (searchStringInFileSMB dec sh p s)) = opened sh @ [ReplaceAll p backslash slash] \<and>
   opened (fst (snd (fetchFileSMB sh fs p localPath))) =
     opened sh @ [ReplaceAll p backslash slash] \<and>
   backslash \<notin> set (ReplaceAll p backslash slash) \<and>
   opened (snd (searchStringInFileSMB_smb_tool dec sh p s)) = opened sh @ [p] \<and>
   opened (fst (snd (fetchFileSMB_smb_tool sh fs p localPath))) = opened sh @ [p] \<and>
   (findLogFilesSMB sh root = Inr found \<longrightarrow> (\<forall>q \<in> set found. slash \<notin> set q)) \<and>
   (findLogFilesSMB_smb_tool sh root = Inr found \<longrightarrow> (\<forall>q \<in> set found. slash \<notin> set q))"
proof (intro conjI impI ballI)
  show "opened (fst (snd (fetchFileSMB sh fs p localPath))) =
      opened sh @ [ReplaceAll p backslash slash]"
    by (auto simp: fetchFileSMB_def smbOpen_def Let_def split: option.splits prod.splits)
  show "opened (fst (snd (fetchFileSMB_smb_tool sh fs p localPath))) = opened sh @ [p]"
    by (auto simp: fetchFileSMB_smb_tool_def smbOpen_def split: option.splits prod.splits)
next
  fix q assume "findLogFilesSMB sh root = Inr found" "q \<in> set found"
  then show "slash \<notin> set q" by (rule discovered_paths_backslash)
next
  fix q assume "findLogFilesSMB_smb_tool sh root = Inr found" "q \<in> set found"
  then show "slash \<notin> set q"
    by (simp add: findLogFilesSMB_smb_tool_eq discovered_paths_backslash)
qed (simp_all add: search_go_smb2_share search_smb_tool_share ReplaceAll_removes)

text \<open>
  C6 on the five files: what discovery returns and what the two scanners pass to
  \<open>Open\<close> for the first of them.
\<close>

theorem C6_paths_passed_to_open_witness:
  "findLogFilesSMB five_files (serverPath ''srv'') = Inr five_paths \<and>
   list_all (\<lambda>q. slash \<notin> set q) five_paths \<and>
   findLogFilesSMB_smb_tool five_files (serverPath ''srv'') = Inr five_paths \<and>
   opened (snd (searchStringInFileSMB utf16_decoder five_files (five_paths ! 0) needle_ERROR)) =
     opened five_files @ [ReplaceAll (five_paths ! 0) backslash slash] \<and>
   backslash \<notin> set (ReplaceAll (five_paths ! 0) backslash slash) \<and>
   opened (snd (searchStringInFileSMB_smb_tool utf16_decoder five_files (five_paths ! 0)
      needle_ERROR)) = opened five_files @ [five_paths ! 0]"
proof -
  note inst = C6_paths_passed_to_open
    [where sh = five_files and p = "five_paths ! 0" and dec = utf16_decoder
       and s = needle_ERROR and root = "serverPath ''srv''" and found = five_paths]
  from inst five_files_discovery have "\<forall>q \<in> set five_paths. slash \<notin> set q" by blast
  then have a: "list_all (\<lambda>q. slash \<notin> set q) five_paths" by (simp add: list_all_iff)
  note b = inst [THEN conjunct1]
  note c = inst [THEN conjunct2, THEN conjunct2, THEN conjunct1]
  note d = inst [THEN conjunct2, THEN conjunct2, THEN conjunct2, THEN conjunct1]
  from five_files_discovery a five_files_discovery_smb_tool b c d show ?thesis
    by (intro conjI)
qed

text \<open>
  C6 as the specification states it does not hold of \<open>smb_tool.go\<close>: the share reports
  the file as \<open>srv/path-to-file/a.log\<close>, discovery turns this into the backslash
  spelling, and the scanner and the fetcher call \<open>Open\<close> with that spelling unchanged.
\<close>

theorem C6_smb_tool_opens_path_as_given:
  "findLogFilesSMB_smb_tool five_files (serverPath ''srv'') = Inr five_paths \<and>
   opened (snd (searchStringInFileSMB_smb_tool utf16_decoder five_files (five_paths ! 0)
      needle_ERROR)) = [five_paths ! 0] \<and>
   opened (fst (snd (fetchFileSMB_smb_tool five_files empty_dir (five_paths ! 0) ''a.log''))) =
     [five_paths ! 0] \<and>
   backslash \<in> set (five_paths ! 0) \<and>
   five_paths ! 0 \<noteq> ''srv/path-to-file/a.log'' \<and>
   ReplaceAll (five_paths ! 0) backslash slash = ''srv/path-to-file/a.log''"
proof (intro conjI)
  show "findLogFilesSMB_smb_tool five_files (serverPath ''srv'') = Inr five_paths"
    by (rule five_files_discovery_smb_tool)
  have o: "opened five_files = []" by (simp add: five_files_def)
  show "opened (snd (searchStringInFileSMB_smb_tool utf16_decoder five_files (five_paths ! 0)
      needle_ERROR)) = [five_paths ! 0]"
    by (simp add: search_smb_tool_share o)
  show "opened (fst (snd (fetchFileSMB_smb_tool five_files empty_dir (five_paths ! 0) ''a.log''))) =
     [five_paths ! 0]"
    by (auto simp: fetchFileSMB_smb_tool_def smbOpen_def o split: option.splits prod.splits)
  show "backslash \<in> set (five_paths ! 0)" by code_simp
  show "five_paths ! 0 \<noteq> ''srv/path-to-file/a.log''" by code_simp
  show "ReplaceAll (five_paths ! 0) backslash slash = ''srv/path-to-file/a.log''" by code_simp
qed

text \<open>
  C7. On a Unix-like system the fetch of the path the tool itself prints,
  \<open>srv\path-to-file\a.log\<close>, succeeds and writes one local file, but its name is the
  whole path with its backslashes, not the last segment \<open>a.log\<close>:
  \<open>filepath.Base\<close> cuts at slashes only. Both programs.
\<close>

theorem C7_fetch_names_file_by_whole_backslash_path:
  "filepath_Base (five_paths ! 0) = five_paths ! 0 \<and>
   five_paths ! 0 \<noteq> ''a.log'' \<and>
   fst (the (fetch_step five_files empty_dir (five_paths ! 0))) = None \<and>
   lfiles (snd (snd (the (fetch_step five_files empty_dir (five_paths ! 0))))) (five_paths ! 0) =
     Some (content a_log) \<and>
   lfiles (snd (snd (the (fetch_step five_files empty_dir (five_paths ! 0))))) ''a.log'' = None \<and>
   fst (the (fetch_step_smb_tool five_files empty_dir (five_paths ! 0))) = None \<and>
   lfiles (snd (snd (the (fetch_step_smb_tool five_files empty_dir (five_paths ! 0)))))
     (five_paths ! 0) = Some (content a_log) \<and>
   lfiles (snd (snd (the (fetch_step_smb_tool five_files empty_dir (five_paths ! 0))))) ''a.log'' =
     None"
  by code_simp

text \<open>
  C8. In \<open>smb_tool.go\<close> a line that contains the search string does not always end the
  scan with a positive result: the second and last line of the file, one buffer long
  and with no line end, contains \<open>b\<close>, the first does not, and the scan for \<open>b\<close> reaches
  the end of the file and returns false. The go-smb2 program returns true at that
  line, with nothing left unread.
\<close>

theorem C8_smb_tool_misses_matching_last_line:
  "ending two_line_file = AtEOF \<and>
   file_lines (content two_line_file) = [[120], replicate 4095 97 @ [98]] \<and>
   \<not> Contains [120] [98 :: byte] \<and>
   Contains (replicate 4095 97 @ [98]) [98 :: byte] \<and>
   fst (scan_lines_smb_tool dec [98] False [] (NewReader two_line_file)) = Inr False \<and>
   scan_lines dec [98] (NewReader two_line_file) =
     (Inr True, (NewReader two_line_file)\<lparr>rd_rest := []\<rparr>)"
proof (intro conjI)
  let ?b = "NewReader two_line_file"
  let ?tail = "replicate 4095 97 @ [98 :: byte]"
  let ?b1 = "?b\<lparr>rd_rest := ?tail\<rparr>"
  show e: "ending two_line_file = AtEOF" by (simp add: two_line_file_def)
  show "file_lines (content two_line_file) = [[120], ?tail]" by (rule two_line_file_lines)
  show n: "\<not> Contains [120] [98 :: byte]" by simp
  show c: "Contains ?tail [98 :: byte]" by (rule Contains_suffix)
  have rest: "rd_rest ?b = [120] @ LF # ?tail" by (simp add: two_line_content(1))
  have fl: "first_line (rd_rest ?b) = [120]"
    unfolding rest using first_line_LF [of "[120]" ?tail] two_line_content(4)
    by (simp add: CR_def)
  have rl: "ReadLine ?b = (([120], False, None), ?b1)"
    using ReadLine_short_line [OF rest two_line_content(4)] fl by simp
  have r1: "rd_rest ?b1 = ?tail" by simp
  have bl: "buflen ?b1 = 4096"
    by (simp add: buflen_def NewReader_def NewReaderSize_def defaultBufSize_def
        minReadBufferSize_def)
  have h1: "rd_end ?b1 = AtEOF" and h2: "\<not> rd_end_with_data ?b1"
    by (simp_all add: two_line_file_def)
  have h3: "LF \<notin> set (rd_rest ?b1)" unfolding r1 by (rule two_line_content(2))
  have h4: "CR \<notin> set (rd_rest ?b1)" unfolding r1 by (rule two_line_content(3))
  have h5: "length (rd_rest ?b1) = 1 * buflen ?b1" unfolding r1 bl by simp
  have "fst (scan_lines_smb_tool dec [98] False [] ?b1) = Inr False"
    by (rule scan_smb_tool_drops_unterminated [OF h1 h2 h3 h4 h5])
  with scan_smb_tool_line [OF rl, of dec "[98]" "[]"] n
  show "fst (scan_lines_smb_tool dec [98] False [] ?b) = Inr False" by simp
  have eb: "rd_end ?b = AtEOF" and ne: "rd_rest ?b \<noteq> []" using e rest by simp_all
  have d1: "decode_line dec [120] = [120]" by (simp add: decode_line_def)
  have a1: "after_first_line (rd_rest ?b) = ?tail"
    unfolding rest using after_first_line_LF [of "[120]" ?tail] two_line_content(4)
    by simp
  have s1: "scan_lines dec [98] ?b = scan_lines dec [98] ?b1"
  proof -
    have "scan_lines dec [98] ?b =
        (if Contains (decode_line dec (first_line (rd_rest ?b))) [98]
         then (Inr True, ?b\<lparr>rd_rest := after_first_line (rd_rest ?b)\<rparr>)
         else scan_lines dec [98] (?b\<lparr>rd_rest := after_first_line (rd_rest ?b)\<rparr>))"
      by (rule scan_lines_step_EOF [OF eb ne])
    then show ?thesis unfolding fl a1 d1 using n by (simp only: if_False)
  qed
  have eb1: "rd_end ?b1 = AtEOF" and ne1: "rd_rest ?b1 \<noteq> []" using e by simp_all
  have fl1: "first_line (rd_rest ?b1) = ?tail" and a2: "after_first_line (rd_rest ?b1) = []"
    unfolding r1
    by (rule first_line_no_LF [OF two_line_content(2)],
        rule after_first_line_no_LF [OF two_line_content(2)])
  have d2: "decode_line dec ?tail = ?tail" by (simp add: decode_line_def nth_append)
  have "scan_lines dec [98] ?b1 =
      (if Contains (decode_line dec (first_line (rd_rest ?b1))) [98]
       then (Inr True, ?b1\<lparr>rd_rest := after_first_line (rd_rest ?b1)\<rparr>)
       else scan_lines dec [98] (?b1\<lparr>rd_rest := after_first_line (rd_rest ?b1)\<rparr>))"
    by (rule scan_lines_step_EOF [OF eb1 ne1])
  then have "scan_lines dec [98] ?b1 = (Inr True, ?b1\<lparr>rd_rest := []\<rparr>)"
    unfolding fl1 a2 d2 using c by (simp only: if_True)
  with s1 show "scan_lines dec [98] ?b = (Inr True, ?b\<lparr>rd_rest := []\<rparr>)" by simp
qed

text \<open>
  C9. When the remote file cannot be opened, the fetch returns the open error and the
  local files are what they were: a local file is created only when the remote open
  has succeeded. Both programs.
\<close>

theorem C9_open_failure_leaves_local_files:
  "(files sh (ReplaceAll remotePath backslash slash) = None \<longrightarrow>
      fst (fetchFileSMB sh fs remotePath localPath) = Some OpenError \<and>
      snd (snd (fetchFileSMB sh fs remotePath localPath)) = fs) \<and>
   (files sh remotePath = None \<longrightarrow>
      fst (fetchFileSMB_smb_tool sh fs remotePath localPath) = Some OpenError \<and>
      snd (snd (fetchFileSMB_smb_tool sh fs remotePath localPath)) = fs) \<and>
   (snd (snd (fetchFileSMB sh fs remotePath localPath)) \<noteq> fs \<longrightarrow>
      files sh (ReplaceAll remotePath backslash slash) \<noteq> None) \<and>
   (snd (snd (fetchFileSMB_smb_tool sh fs remotePath localPath)) \<noteq> fs \<longrightarrow>
      files sh remotePath \<noteq> None)"
  by (auto simp: fetchFileSMB_def fetchFileSMB_smb_tool_def smbOpen_def Let_def
      split: option.splits prod.splits)

text \<open>
  C9 on the empty share: both fetchers return the open error and leave the empty
  directory empty.
\<close>

theorem C9_open_failure_leaves_local_files_witness:
  "files empty_share (ReplaceAll ''srv/app.log'' backslash slash) = None \<and>
   fst (fetchFileSMB empty_share empty_dir ''srv/app.log'' ''app.log'') = Some OpenError \<and>
   snd (snd (fetchFileSMB empty_share empty_dir ''srv/app.log'' ''app.log'')) = empty_dir \<and>
   files empty_share ''srv/app.log'' = None \<and>
   fst (fetchFileSMB_smb_tool empty_share empty_dir ''srv/app.log'' ''app.log'') = Some OpenError \<and>
   snd (snd (fetchFileSMB_smb_tool empty_share empty_dir ''srv/app.log'' ''app.log'')) = empty_dir"
proof -
  have a: "files empty_share (ReplaceAll ''srv/app.log'' backslash slash) = None"
    by (simp add: empty_share_def)
  have b: "files empty_share ''srv/app.log'' = None"
    by (simp add: empty_share_def)
  from C9_open_failure_leaves_local_files
    [of empty_share "''srv/app.log''" empty_dir "''app.log''"] a b
  show ?thesis by blast
qed

text \<open>
  C10. With the empty search string \<open>smb_tool.go\<close> returns false on the one-buffer file,
  which is not empty and is read without error: its one line is never tested. The
  go-smb2 program returns true on it, and false on the empty file.
\<close>

theorem C10_smb_tool_empty_needle_one_buffer:
  "content one_buffer_file \<noteq> [] \<and>
   file_lines (content one_buffer_file) = [content one_buffer_file] \<and>
   Contains (content one_buffer_file) [] \<and>
   fst (scan_lines_smb_tool dec [] False [] (NewReader one_buffer_file)) = Inr False \<and>
   fst (scan_lines dec [] (NewReader one_buffer_file)) = Inr True"
proof (intro conjI)
  have ne: "content one_buffer_file \<noteq> []"
    and nolf: "LF \<notin> set (content one_buffer_file)"
    and nocr: "CR \<notin> set (content one_buffer_file)"
    and len: "length (content one_buffer_file) = 1 * 4096"
    by (simp_all add: one_buffer_file_def LF_def CR_def)
  show "content one_buffer_file \<noteq> []" by (rule ne)
  show "file_lines (content one_buffer_file) = [content one_buffer_file]"
    by (rule single_line [OF ne nolf])
  show "Contains (content one_buffer_file) []" by simp
  have e: "rd_end (NewReader one_buffer_file) = AtEOF"
    and d: "\<not> rd_end_with_data (NewReader one_buffer_file)"
    and e': "ending one_buffer_file = AtEOF"
    by (simp_all add: one_buffer_file_def)
  show "fst (scan_lines_smb_tool dec [] False [] (NewReader one_buffer_file)) = Inr False"
    by (rule scan_smb_tool_drops_unterminated [where k = 1, OF e d])
       (simp_all add: nolf nocr len)
  show "fst (scan_lines dec [] (NewReader one_buffer_file)) = Inr True"
    using go_smb2_empty_needle [OF e', of dec] ne by simp
qed

end
